theory Spec2Isabelle
  imports Complex_Main "HOL-Library.Multiset"
begin

section \<open>Python values and failures\<close>

text \<open>
  Floating-point numbers of the source are modelled as the reals; Python integers as
  \<open>int\<close>. Every exception the modelled code can raise is a value of \<open>error\<close>; a
  call that raises returns \<open>Inl\<close> of it (the partially updated object is dropped with
  it, as no caller of the source catches an exception).
\<close>

datatype error =
  IndexError | ValueError | TypeError | ZeroDivisionError | AssertionError
  | FileNotFoundError | RuntimeError

text \<open>Python list indexing: a negative index counts from the end, out of range raises.\<close>

definition py_index :: "'a list \<Rightarrow> int \<Rightarrow> error + nat" where
  "py_index xs i =
     (let n = int (length xs); j = (if i < 0 then n + i else i)
      in if 0 \<le> j \<and> j < n then Inr (nat j) else Inl IndexError)"

definition py_get :: "'a list \<Rightarrow> int \<Rightarrow> error + 'a" where
  "py_get xs i = (case py_index xs i of Inl e \<Rightarrow> Inl e | Inr j \<Rightarrow> Inr (xs ! j))"

definition py_set :: "'a list \<Rightarrow> int \<Rightarrow> 'a \<Rightarrow> error + 'a list" where
  "py_set xs i v = (case py_index xs i of Inl e \<Rightarrow> Inl e | Inr j \<Rightarrow> Inr (xs[j := v]))"

section \<open>ReplayMemory (agent\_SAC.py)\<close>

text \<open>
  A transition is the tuple \<open>(state, action, reward, next_state, done)\<close> that
  \<open>SAC.add_to_buffer\<close> pushes: three float vectors, a float and a boolean. A slot of the
  buffer holds \<open>None\<close> between \<open>append(None)\<close> and the assignment that follows it.
\<close>

type_synonym transition = "real list \<times> real list \<times> real \<times> real list \<times> bool"

record ReplayMemory =
  capacity :: int
  buffer :: "transition option list"
  position :: int

definition ReplayMemory_init :: "int \<Rightarrow> ReplayMemory" where
  "ReplayMemory_init c = \<lparr>capacity = c, buffer = [], position = 0\<rparr>"

definition push :: "ReplayMemory \<Rightarrow> transition \<Rightarrow> error + ReplayMemory" where
  "push m t =
     (let buf = (if int (length (buffer m)) < capacity m then buffer m @ [None] else buffer m)
      in case py_set buf (position m) (Some t) of
           Inl e \<Rightarrow> Inl e
         | Inr buf' \<Rightarrow>
             if capacity m = 0 then Inl ZeroDivisionError
             else Inr (m\<lparr>buffer := buf', position := (position m + 1) mod capacity m\<rparr>))"

text \<open>A sequence of push calls on one memory; the first exception ends it.\<close>

fun pushes :: "ReplayMemory \<Rightarrow> transition list \<Rightarrow> error + ReplayMemory" where
  "pushes m [] = Inr m"
| "pushes m (t # ts) = (case push m t of Inl e \<Rightarrow> Inl e | Inr m' \<Rightarrow> pushes m' ts)"

definition len_ReplayMemory :: "ReplayMemory \<Rightarrow> nat" where
  "len_ReplayMemory m = length (buffer m)"

subsection \<open>\<open>random.sample\<close>\<close>

text \<open>
  \<open>ReplayMemory.sample\<close> draws with \<open>random.sample\<close> of the standard library (CPython).
  The generator is the list \<open>rs\<close> of the numbers that its successive calls of
  \<open>getrandbits\<close> return; a run that asks for more numbers than the list holds has no result
  (\<open>None\<close>): it is still drawing.

  \<open>_randbelow(n)\<close>, for \<open>n > 0\<close>: numbers are drawn until one below \<open>n\<close> comes.
\<close>

fun randbelow :: "nat \<Rightarrow> nat list \<Rightarrow> (nat \<times> nat list) option" where
  "randbelow n [] = None"
| "randbelow n (r # rs) = (if r < n then Some (r, rs) else randbelow n rs)"

text \<open>
  \<open>setsize = 21; if k > 5: setsize += 4 ** _ceil(_log(k * 3, 4))\<close>: up to this size
  of the population the selection works on a copy of it, beyond it with a set of the
  positions selected.
\<close>

definition setsize :: "nat \<Rightarrow> nat" where
  "setsize k = (if k > 5 then 21 + 4 ^ nat \<lceil>log 4 (real (k * 3))\<rceil> else 21)"

text \<open>
  The first loop, \<open>for i in range(k): j = randbelow(n - i); result[i] = pool[j];
  pool[j] = pool[n - i - 1]\<close>, with \<open>live = n - i\<close> and \<open>c\<close> rounds to go.
\<close>

fun sample_pool :: "'a list \<Rightarrow> nat \<Rightarrow> nat \<Rightarrow> nat list \<Rightarrow> 'a list option" where
  "sample_pool pool live 0 rs = Some []"
| "sample_pool pool live (Suc c) rs =
     (case randbelow live rs of
        None \<Rightarrow> None
      | Some (j, rs') \<Rightarrow>
          (case sample_pool (pool[j := pool ! (live - 1)]) (live - 1) c rs' of
             None \<Rightarrow> None
           | Some result \<Rightarrow> Some (pool ! j # result)))"

text \<open>
  The second loop, \<open>for i in range(k): j = randbelow(n); while j in selected:
  j = randbelow(n); selected_add(j); result[i] = population[j]\<close>. \<open>draw_unselected\<close> is
  its inner part, \<open>randbelow\<close> and the \<open>while\<close> around it as one loop over the numbers
  drawn: the first that is below \<open>n\<close> and not selected.
\<close>

fun draw_unselected :: "nat \<Rightarrow> nat set \<Rightarrow> nat list \<Rightarrow> (nat \<times> nat list) option" where
  "draw_unselected n selected [] = None"
| "draw_unselected n selected (r # rs) =
     (if r < n then (if r \<in> selected then draw_unselected n selected rs else Some (r, rs))
      else draw_unselected n selected rs)"

fun sample_set :: "'a list \<Rightarrow> nat set \<Rightarrow> nat \<Rightarrow> nat list \<Rightarrow> 'a list option" where
  "sample_set population selected 0 rs = Some []"
| "sample_set population selected (Suc c) rs =
     (case draw_unselected (length population) selected rs of
        None \<Rightarrow> None
      | Some (j, rs') \<Rightarrow>
          (case sample_set population (insert j selected) c rs' of
             None \<Rightarrow> None
           | Some result \<Rightarrow> Some (population ! j # result)))"

definition random_sample :: "'a list \<Rightarrow> int \<Rightarrow> nat list \<Rightarrow> (error + 'a list) option" where
  "random_sample population k rs =
     (let n = length population
      in if \<not> (0 \<le> k \<and> k \<le> int n) then Some (Inl ValueError)
         else if n \<le> setsize (nat k) then map_option Inr (sample_pool population n (nat k) rs)
         else map_option Inr (sample_set population {} (nat k) rs))"

text \<open>
  The positions that \<open>random.sample\<close> draws in a population of \<open>n\<close> elements: its
  selection run on the positions \<open>0, ..., n - 1\<close> themselves.
\<close>

definition sample_positions :: "nat \<Rightarrow> nat \<Rightarrow> nat list \<Rightarrow> nat list option" where
  "sample_positions n k rs =
     (if n \<le> setsize k then sample_pool [0..<n] n k rs else sample_set [0..<n] {} k rs)"

text \<open>
  What the \<open>k\<close> calls \<open>randbelow(n), randbelow(n - 1), ...\<close> of the first loop can
  return, each number below its bound and each as likely as the others; and the ordered
  selections of \<open>k\<close> different positions among \<open>n\<close>.
\<close>

definition pool_draws :: "nat \<Rightarrow> nat \<Rightarrow> nat list set" where
  "pool_draws n k = {js. length js = k \<and> (\<forall>i<k. js ! i < n - i)}"

definition selections :: "nat \<Rightarrow> nat \<Rightarrow> nat list set" where
  "selections n k = {ps. length ps = k \<and> distinct ps \<and> set ps \<subseteq> {..<n}}"

text \<open>
  \<open>np.stack\<close> of a sequence of vectors raises ValueError on an empty sequence and on
  vectors of different shapes; stacking scalars only needs one of them.
\<close>

definition np_stack :: "real list list \<Rightarrow> error + real list list" where
  "np_stack xs =
     (case xs of [] \<Rightarrow> Inl ValueError
      | x # _ \<Rightarrow> if list_all (\<lambda>y. length y = length x) xs then Inr xs else Inl ValueError)"

definition np_stack0 :: "'a list \<Rightarrow> error + 'a list" where
  "np_stack0 xs = (case xs of [] \<Rightarrow> Inl ValueError | _ # _ \<Rightarrow> Inr xs)"

text \<open>
  \<open>zip(*batch)\<close>: a \<open>None\<close> in the batch is not iterable (TypeError); otherwise the five
  columns of the batch, none at all for an empty batch.
\<close>

fun unslot :: "transition option list \<Rightarrow> error + transition list" where
  "unslot [] = Inr []"
| "unslot (None # _) = Inl TypeError"
| "unslot (Some t # ts) = (case unslot ts of Inl e \<Rightarrow> Inl e | Inr r \<Rightarrow> Inr (t # r))"

type_synonym batch = "real list list \<times> real list list \<times> real list \<times> real list list \<times> bool list"

text \<open>
  \<open>state, action, reward, next_state, done = map(np.stack, zip(*batch))\<close>: unpacking
  no columns into five names raises ValueError.
\<close>

definition stack_columns :: "transition option list \<Rightarrow> error + batch" where
  "stack_columns slots =
     (case unslot slots of
        Inl e \<Rightarrow> Inl e
      | Inr b \<Rightarrow>
         if b = [] then Inl ValueError
         else
          (case np_stack (map (\<lambda>(s, a, r, s', d). s) b) of Inl e \<Rightarrow> Inl e | Inr state \<Rightarrow>
          (case np_stack (map (\<lambda>(s, a, r, s', d). a) b) of Inl e \<Rightarrow> Inl e | Inr action \<Rightarrow>
          (case np_stack0 (map (\<lambda>(s, a, r, s', d). r) b) of Inl e \<Rightarrow> Inl e | Inr reward \<Rightarrow>
          (case np_stack (map (\<lambda>(s, a, r, s', d). s') b) of Inl e \<Rightarrow> Inl e | Inr next_state \<Rightarrow>
          (case np_stack0 (map (\<lambda>(s, a, r, s', d). d) b) of Inl e \<Rightarrow> Inl e | Inr done \<Rightarrow>
             Inr (state, action, reward, next_state, done)))))))"

definition sample :: "ReplayMemory \<Rightarrow> int \<Rightarrow> nat list \<Rightarrow> (error + batch) option" where
  "sample m batch_size rs =
     (case random_sample (buffer m) batch_size rs of
        None \<Rightarrow> None
      | Some (Inl e) \<Rightarrow> Some (Inl e)
      | Some (Inr batch) \<Rightarrow> Some (stack_columns batch))"


section \<open>Target networks and the SAC learner (agent\_SAC.py)\<close>

text \<open>
  A parameter of a network is a tensor: its shape and its entries in row-major order. The
  parameters of a network are the list of its tensors, in the order of \<open>parameters()\<close>.
\<close>

record tensor =
  shape :: "nat list"
  data :: "real list"

definition wf_tensor :: "tensor \<Rightarrow> bool" where
  "wf_tensor t \<longleftrightarrow> length (data t) = prod_list (shape t)"

text \<open>
  Broadcasting, as \<open>copy_\<close> and the arithmetic of torch do it: a source can be expanded
  to a shape when, aligned at the last dimension, each of its dimensions is that of the
  shape or 1; a dimension of 1 is repeated. \<open>chunks len k xs\<close> cuts \<open>xs\<close> into \<open>k\<close> rows
  of \<open>len\<close> entries.
\<close>

definition expandable :: "nat list \<Rightarrow> nat list \<Rightarrow> bool" where
  "expandable s t \<longleftrightarrow>
     length s \<le> length t \<and>
     list_all2 (\<lambda>d e. d = e \<or> d = 1) (replicate (length t - length s) 1 @ s) t"

fun chunks :: "nat \<Rightarrow> nat \<Rightarrow> 'a list \<Rightarrow> 'a list list" where
  "chunks len 0 xs = []"
| "chunks len (Suc k) xs = take len xs # chunks len k (drop len xs)"

fun expand_data :: "nat list \<Rightarrow> nat list \<Rightarrow> 'a list \<Rightarrow> 'a list" where
  "expand_data (d # ds) (e # es) xs =
     (if d = e then concat (map (expand_data ds es) (chunks (prod_list ds) d xs))
      else concat (replicate e (expand_data ds es xs)))"
| "expand_data ds es xs = xs"

definition expand_to :: "tensor \<Rightarrow> nat list \<Rightarrow> error + real list" where
  "expand_to src sh =
     (if expandable (shape src) sh
      then Inr (expand_data (replicate (length sh - length (shape src)) 1 @ shape src) sh (data src))
      else Inl RuntimeError)"

text \<open>\<open>self.copy_(src)\<close>: the source, expanded to the shape of \<open>self\<close>, replaces its entries.\<close>

definition tensor_copy :: "tensor \<Rightarrow> tensor \<Rightarrow> error + tensor" where
  "tensor_copy self src =
     (case expand_to src (shape self) of Inl e \<Rightarrow> Inl e | Inr xs \<Rightarrow> Inr (self\<lparr>data := xs\<rparr>))"

text \<open>
  \<open>zip\<close> stops at the shorter list, so parameters of the target beyond the source's keep
  their value. In \<open>soft_update\<close> the sum \<open>target_param.data * (1.0 - tau) + param.data * tau\<close>
  has the broadcast shape of the two, and \<open>copy_\<close> takes it only if that is the shape of
  the target: the source parameter must be expandable to the target's shape.
\<close>

fun soft_update :: "tensor list \<Rightarrow> tensor list \<Rightarrow> real \<Rightarrow> error + tensor list" where
  "soft_update (target_param # target) (param # source) tau =
     (case expand_to param (shape target_param) of
        Inl e \<Rightarrow> Inl e
      | Inr ps \<Rightarrow>
         (case soft_update target source tau of
            Inl e \<Rightarrow> Inl e
          | Inr rest \<Rightarrow>
              Inr (target_param\<lparr>data := map2 (\<lambda>x p. x * (1.0 - tau) + p * tau)
                                           (data target_param) ps\<rparr> # rest)))"
| "soft_update target source tau = Inr target"

fun hard_update :: "tensor list \<Rightarrow> tensor list \<Rightarrow> error + tensor list" where
  "hard_update (target_param # target) (param # source) =
     (case tensor_copy target_param param of
        Inl e \<Rightarrow> Inl e
      | Inr t \<Rightarrow>
         (case hard_update target source of Inl e \<Rightarrow> Inl e | Inr rest \<Rightarrow> Inr (t # rest)))"
| "hard_update target source = Inr target"

text \<open>
  \<open>load_state_dict(torch.load(path))\<close>: the file may be missing (\<open>None\<close>), and its
  tensors must have the shapes of the module's; their entries become the module's.
\<close>

definition load_state_dict :: "tensor list \<Rightarrow> tensor list option \<Rightarrow> error + tensor list" where
  "load_state_dict params file =
     (case file of None \<Rightarrow> Inl FileNotFoundError
      | Some vs \<Rightarrow> if map shape vs = map shape params then Inr vs else Inl RuntimeError)"

text \<open>\<open>AutoRegressiveMemory\<close>: \<open>[0] * capacity\<close>, then whatever is pushed.\<close>

datatype ar_item = Scalar real | Vector "real list"

definition AutoRegressiveMemory_init :: "nat \<Rightarrow> ar_item list" where
  "AutoRegressiveMemory_init c = replicate c (Scalar 0)"

definition AutoRegressiveMemory_push :: "ar_item list \<Rightarrow> ar_item \<Rightarrow> ar_item list" where
  "AutoRegressiveMemory_push buf previous_consumption = buf @ [previous_consumption]"

text \<open>
  The fields of \<open>SAC\<close> that the modelled methods read or write. The hyperparameters and
  reward weights are assigned once in \<open>__init__\<close> and never again; they are constants.
\<close>

record SAC =
  critic :: "tensor list"
  critic_target :: "tensor list"
  policy :: "tensor list"
  memory :: ReplayMemory
  autoregressive_action_memory :: "ar_item list"
  action_tracker :: "real list list"
  reward_tracker :: "real list"
  day_list :: "real list"

definition tau :: real where "tau = 0.003"
definition replay_size :: int where "replay_size = 2000000"
definition sw4 :: real where "sw4 = 0.5"
definition sw5 :: real where "sw5 = 1"
definition sw6 :: real where "sw6 = - 1 / 2"
definition sw7 :: real where "sw7 = 2"

definition load_model ::
  "SAC \<Rightarrow> tensor list option \<Rightarrow> tensor list option \<Rightarrow> error + SAC" where
  "load_model self actor_file critic_file =
     (case load_state_dict (policy self) actor_file of
        Inl e \<Rightarrow> Inl e
      | Inr p \<Rightarrow>
         (case load_state_dict (critic self) critic_file of
            Inl e \<Rightarrow> Inl e
          | Inr c \<Rightarrow> Inr (self\<lparr>policy := p, critic := c\<rparr>)))"

text \<open>
  \<open>SAC.__init__\<close>. The arguments \<open>critic0\<close>, \<open>critic_target0\<close> and \<open>policy0\<close> are
  the freshly initialised parameters of the three networks (Xavier-uniform weights, drawn
  by the generator; the two critics are \<open>QNetwork\<close>s of the same dimensions); \<open>actor_file\<close> and \<open>critic_file\<close> are what the checkpoints
  \<open>alg/sac_actor\<close> and \<open>alg/sac_critic\<close> hold.
\<close>

definition SAC_init ::
  "tensor list \<Rightarrow> tensor list \<Rightarrow> tensor list \<Rightarrow> bool \<Rightarrow> tensor list option
   \<Rightarrow> tensor list option \<Rightarrow> error + SAC" where
  "SAC_init critic0 critic_target0 policy0 continue_training actor_file critic_file =
     (case hard_update critic_target0 critic0 of
        Inl e \<Rightarrow> Inl e
      | Inr target \<Rightarrow>
         (let self = \<lparr>critic = critic0,
                      critic_target = target,
                      policy = policy0,
                      memory = ReplayMemory_init replay_size,
                      autoregressive_action_memory = AutoRegressiveMemory_init 1,
                      action_tracker = [],
                      reward_tracker = [],
                      day_list = replicate 24 0\<rparr>
          in if continue_training then load_model self actor_file critic_file else Inr self))"

subsection \<open>Reward shaping: \<open>SAC.add_to_buffer\<close>\<close>

definition np_clip :: "real \<Rightarrow> real \<Rightarrow> real \<Rightarrow> real" where
  "np_clip a a_min a_max = min (max a a_min) a_max"

text \<open>\<open>int(x)\<close> of a float truncates towards zero.\<close>

definition py_int :: "real \<Rightarrow> int" where
  "py_int x = (if 0 \<le> x then \<lfloor>x\<rfloor> else \<lceil>x\<rceil>)"

fun py_max :: "real list \<Rightarrow> error + real" where
  "py_max [] = Inl ValueError"
| "py_max (x # xs) = Inr (fold max xs x)"

text \<open>
  \<open>actions.mean()\<close> of an empty array is NaN, and every comparison with NaN is false;
  the two predicates are the comparisons of the source with that case written out.
\<close>

definition np_mean :: "real list \<Rightarrow> real" where
  "np_mean xs = sum_list xs / real (length xs)"

definition mean_gt :: "real list \<Rightarrow> real \<Rightarrow> bool" where
  "mean_gt xs c \<longleftrightarrow> xs \<noteq> [] \<and> np_mean xs > c"

definition mean_lt :: "real list \<Rightarrow> real \<Rightarrow> bool" where
  "mean_lt xs c \<longleftrightarrow> xs \<noteq> [] \<and> np_mean xs < c"

definition night_charging_boost :: "real \<Rightarrow> real list \<Rightarrow> real" where
  "night_charging_boost hour actions =
     (if (1 \<le> hour \<and> hour < 12 \<or> 22 \<le> hour \<and> hour \<le> 24) \<and> mean_gt actions 0.1 then 1
      else if (1 \<le> hour \<and> hour < 8 \<or> 22 \<le> hour \<and> hour \<le> 24) \<and> mean_lt actions 0 then - 1
      else 0)"

definition day_charging_pen :: "real \<Rightarrow> real list \<Rightarrow> real" where
  "day_charging_pen hour actions =
     (if (12 \<le> hour \<and> hour < 20) \<and> mean_gt actions 0 then - 1 else 0)"

text \<open>
  Lines 341 to 348: the tracker of the day's consumption. The result is \<open>max_peak\<close> and
  the new \<open>day_list\<close>; \<open>net\<close> is \<open>env.net_electric_consumption\<close>.
\<close>

definition daily_peak :: "real list \<Rightarrow> int \<Rightarrow> real list \<Rightarrow> error + (real \<times> real list)" where
  "daily_peak dl hr_index net =
     (if hr_index = 0 then
        (case py_max dl of Inl e \<Rightarrow> Inl e | Inr max_peak \<Rightarrow>
        (case py_get net (- 1) of Inl e \<Rightarrow> Inl e | Inr v \<Rightarrow>
        (case py_set (replicate 24 0) hr_index v of Inl e \<Rightarrow> Inl e | Inr dl' \<Rightarrow>
           Inr (max_peak, dl'))))
      else
        (case py_get net (- 1) of Inl e \<Rightarrow> Inl e | Inr v \<Rightarrow>
        (case py_set dl hr_index v of Inl e \<Rightarrow> Inl e | Inr dl' \<Rightarrow>
        (case py_max dl' of Inl e \<Rightarrow> Inl e | Inr max_peak \<Rightarrow>
           Inr (max_peak, dl')))))"

type_synonym shaped = "real \<times> real \<times> real \<times> real \<times> real"

definition add_to_buffer ::
  "SAC \<Rightarrow> real list \<Rightarrow> real list \<Rightarrow> real list \<Rightarrow> real \<Rightarrow> real list \<Rightarrow> bool
   \<Rightarrow> error + (SAC \<times> shaped)" where
  "add_to_buffer self net states actions rewards next_states dones =
     (let rewards = np_clip (rewards / 5) (- 1) 1;
          penal = sum_list (map (\<lambda>x. if \<not> (0.001 > x \<and> x > - 0.001) then 1 else - 10) actions)
      in case py_get states 2 of Inl e \<Rightarrow> Inl e | Inr hour \<Rightarrow>
         (let hr_pen = night_charging_boost hour actions + day_charging_pen hour actions;
              hr_index = py_int hour - 1
          in case daily_peak (day_list self) hr_index net of Inl e \<Rightarrow> Inl e
             | Inr (max_peak, dl') \<Rightarrow>
               (let total_rewards =
                      (penal * sw4) + (rewards * sw5) + (max_peak / 50 * sw6) + (hr_pen * sw7);
                    norm_rewards = total_rewards
                in case push (memory self) (states, actions, norm_rewards, next_states, dones) of
                     Inl e \<Rightarrow> Inl e
                   | Inr mem' \<Rightarrow>
                       Inr (self\<lparr>day_list := dl',
                                 memory := mem',
                                 autoregressive_action_memory :=
                                   AutoRegressiveMemory_push (autoregressive_action_memory self)
                                     (Vector actions),
                                 reward_tracker := reward_tracker self @ [norm_rewards]\<rparr>,
                            (total_rewards, rewards * sw5, penal * sw4, max_peak / 50 * sw6,
                             hr_pen * sw7)))))"

text \<open>
  A run of \<open>add_to_buffer\<close> calls on one learner. A call is the consumption series of the
  environment at that moment and the five arguments; the run collects what each call
  returns and ends at the first exception.
\<close>

type_synonym call = "real list \<times> real list \<times> real list \<times> real \<times> real list \<times> bool"

fun add_all :: "SAC \<Rightarrow> call list \<Rightarrow> error + (SAC \<times> shaped list)" where
  "add_all self [] = Inr (self, [])"
| "add_all self ((net, states, actions, rewards, next_states, dones) # cs) =
     (case add_to_buffer self net states actions rewards next_states dones of
        Inl e \<Rightarrow> Inl e
      | Inr (self', r) \<Rightarrow>
         (case add_all self' cs of Inl e \<Rightarrow> Inl e | Inr (self'', rs) \<Rightarrow> Inr (self'', r # rs)))"


subsection \<open>The policies\<close>

text \<open>
  The hidden layers and the linear heads of a policy are its numeric contract only: a
  function from the state to the outputs of the heads. \<open>Box\<close> is the action space;
  tensors of one state (a batch of one) are lists, combined componentwise.
\<close>

record Box =
  low :: "real list"
  high :: "real list"

record ActionRescale =
  action_scale :: "real list"
  action_bias :: "real list"

record GaussianPolicy = ActionRescale +
  heads :: "real list \<Rightarrow> real list \<times> real list"

record DeterministicPolicy = ActionRescale +
  mean_head :: "real list \<Rightarrow> real list"

definition LOG_SIG_MAX :: real where "LOG_SIG_MAX = 2"
definition LOG_SIG_MIN :: real where "LOG_SIG_MIN = - 20"
definition epsilon :: real where "epsilon = 1 / 1000000"

text \<open>
  The rescaling of \<open>__init__\<close>: the scalars 1 and 0 (broadcast over the \<open>num_actions\<close>
  outputs) without an action space, half the width and the midpoint of the box with one.
\<close>

definition rescaling :: "nat \<Rightarrow> Box option \<Rightarrow> real list \<times> real list" where
  "rescaling num_actions action_space =
     (case action_space of
        None \<Rightarrow> (replicate num_actions 1, replicate num_actions 0)
      | Some sp \<Rightarrow> (map2 (\<lambda>h l. (h - l) / 2) (high sp) (low sp),
                   map2 (\<lambda>h l. (h + l) / 2) (high sp) (low sp)))"

definition GaussianPolicy_init ::
  "(real list \<Rightarrow> real list \<times> real list) \<Rightarrow> nat \<Rightarrow> Box option \<Rightarrow> GaussianPolicy" where
  "GaussianPolicy_init net num_actions action_space =
     (case rescaling num_actions action_space of
        (sc, bi) \<Rightarrow> \<lparr>action_scale = sc, action_bias = bi, heads = net\<rparr>)"

definition DeterministicPolicy_init ::
  "(real list \<Rightarrow> real list) \<Rightarrow> nat \<Rightarrow> Box option \<Rightarrow> DeterministicPolicy" where
  "DeterministicPolicy_init net num_actions action_space =
     (case rescaling num_actions action_space of
        (sc, bi) \<Rightarrow> \<lparr>action_scale = sc, action_bias = bi, mean_head = net\<rparr>)"

definition GaussianPolicy_forward :: "GaussianPolicy \<Rightarrow> real list \<Rightarrow> real list \<times> real list" where
  "GaussianPolicy_forward self state =
     (case heads self state of
        (mean, log_std) \<Rightarrow> (mean, map (\<lambda>x. np_clip x LOG_SIG_MIN LOG_SIG_MAX) log_std))"

text \<open>\<open>Normal(mean, std).log_prob(x)\<close> of torch, one component.\<close>

definition normal_log_prob :: "real \<Rightarrow> real \<Rightarrow> real \<Rightarrow> real" where
  "normal_log_prob m sd x = - ((x - m)\<^sup>2) / (2 * sd\<^sup>2) - ln sd - ln (sqrt (2 * pi))"

text \<open>
  \<open>GaussianPolicy.sample\<close>; \<open>noise\<close> is the standard normal draw of \<open>rsample\<close>, one
  number for each action component. The result is \<open>(action, log_prob, mean)\<close>.
\<close>

definition GaussianPolicy_sample ::
  "GaussianPolicy \<Rightarrow> real list \<Rightarrow> real list \<Rightarrow> real list \<times> real \<times> real list" where
  "GaussianPolicy_sample self state noise =
     (case GaussianPolicy_forward self state of
        (mean, log_std) \<Rightarrow>
          (let std = map exp log_std;
               x_t = map2 (\<lambda>(m, sd) e. m + sd * e) (zip mean std) noise;
               y_t = map tanh x_t;
               action = map2 (+) (map2 (*) y_t (action_scale self)) (action_bias self);
               log_prob = map2 (\<lambda>(m, sd) x. normal_log_prob m sd x) (zip mean std) x_t;
               log_prob = map2 (\<lambda>lp (sc, y). lp - ln (sc * (1 - y\<^sup>2) + epsilon)) log_prob
                            (zip (action_scale self) y_t);
               mean = map2 (+) (map2 (*) (map tanh mean) (action_scale self)) (action_bias self)
           in (action, sum_list log_prob, mean)))"

definition DeterministicPolicy_forward :: "DeterministicPolicy \<Rightarrow> real list \<Rightarrow> real list" where
  "DeterministicPolicy_forward self state =
     map2 (+) (map2 (*) (map tanh (mean_head self state)) (action_scale self)) (action_bias self)"

text \<open>
  \<open>DeterministicPolicy.sample\<close>; \<open>draw\<close> is what \<open>normal_(0., std=0.1)\<close> puts in the
  noise tensor.
\<close>

definition DeterministicPolicy_sample ::
  "DeterministicPolicy \<Rightarrow> real list \<Rightarrow> real list \<Rightarrow> real list \<times> real \<times> real list" where
  "DeterministicPolicy_sample self state draw =
     (let mean = DeterministicPolicy_forward self state;
          noise = map (\<lambda>x. np_clip x (- 0.25) 0.25) draw;
          action = map2 (+) mean noise
      in (action, 0, mean))"

section \<open>Chargers and electric vehicles (citylearn)\<close>

text \<open>
  The class \<open>Battery\<close> is not among the sources. A battery is the record of the attributes
  the sources read, and its methods \<open>charge\<close> and \<open>set_ad_hoc_charge\<close> are arguments of
  the functions that call them. \<open>Environment\<close> is the base of chargers and vehicles; of it
  the sources use the time step.
\<close>

record Battery =
  b_capacity :: real
  b_soc :: "real list"
  b_initial_soc :: real
  b_nominal_power :: real
  b_electricity_consumption :: "real list"

record Environment =
  time_step :: int

record electric_vehicle = Environment +
  battery :: Battery
  aux_battery :: Battery
  ev_required_soc_departure :: "real list"
  ev_estimated_soc_arrival :: "real list"

record Charger = Environment +
  efficiency :: real
  max_charging_power :: real
  max_discharging_power :: real
  connected_ev :: "electric_vehicle option"
  past_charging_action_values :: "real list"
  electricity_consumption :: "real list"
  electricity_consumption_without_partial_load :: "real list"

text \<open>The setter of \<open>efficiency\<close>: 1.0 for \<open>None\<close>, and an assertion otherwise.\<close>

definition efficiency_setter :: "real option \<Rightarrow> error + real" where
  "efficiency_setter e =
     (case e of None \<Rightarrow> Inr 1.0 | Some v \<Rightarrow> if v > 0 then Inr v else Inl AssertionError)"

text \<open>
  Lines 309 to 322 of \<open>update_connected_ev_soc\<close>: the signed energy of the action and
  its clamp, before the efficiency.
\<close>

definition requested_energy :: "Charger \<Rightarrow> real \<Rightarrow> real" where
  "requested_energy self action_value =
     (if action_value > 0 then action_value * max_charging_power self
      else action_value * max_discharging_power self)"

definition clamped_energy :: "Charger \<Rightarrow> electric_vehicle \<Rightarrow> real \<Rightarrow> error + real" where
  "clamped_energy self car action_value =
     (let energy = requested_energy self action_value;
          charging = (energy \<ge> 0)
      in case py_get (b_soc (battery car)) (time_step self) of
           Inl e \<Rightarrow> Inl e
         | Inr soc \<Rightarrow>
            if charging then Inr (min energy (b_capacity (battery car) - soc))
            else (let max_discharge = - (soc - 0.10 * b_capacity (battery car))
                  in Inr (max energy max_discharge)))"

definition no_consumption :: "Charger \<Rightarrow> error + Charger" where
  "no_consumption self =
     (case py_set (electricity_consumption self) (time_step self) 0 of
        Inl e \<Rightarrow> Inl e
      | Inr ec \<Rightarrow>
         (case py_set (electricity_consumption_without_partial_load self) (time_step self) 0 of
            Inl e \<Rightarrow> Inl e
          | Inr ecw \<Rightarrow>
              Inr (self\<lparr>electricity_consumption := ec,
                        electricity_consumption_without_partial_load := ecw\<rparr>)))"

text \<open>
  \<open>Charger.update_connected_ev_soc\<close>; \<open>charge\<close> is \<open>Battery.charge\<close>. The car is an
  object shared with the charger: the charged batteries are those of \<open>connected_ev\<close>.
\<close>

definition update_connected_ev_soc ::
  "(Battery \<Rightarrow> real \<Rightarrow> Battery) \<Rightarrow> Charger \<Rightarrow> real \<Rightarrow> error + Charger" where
  "update_connected_ev_soc charge self0 action_value =
     (case py_set (past_charging_action_values self0) (time_step self0) action_value of
        Inl e \<Rightarrow> Inl e
      | Inr pav \<Rightarrow>
         (let self = self0\<lparr>past_charging_action_values := pav\<rparr>
          in case connected_ev self of
               None \<Rightarrow> no_consumption self
             | Some car \<Rightarrow>
                if action_value = 0 then no_consumption self
                else
                 (case clamped_energy self car action_value of Inl e \<Rightarrow> Inl e | Inr energy \<Rightarrow>
                  (let energy_kwh = energy * efficiency self;
                       bat = charge (battery car) energy_kwh
                   in case py_get (b_electricity_consumption bat) (- 1) of Inl e \<Rightarrow> Inl e
                      | Inr c \<Rightarrow>
                  (case py_set (electricity_consumption self) (time_step self) c of
                     Inl e \<Rightarrow> Inl e | Inr ec \<Rightarrow>
                  (case py_get (ev_required_soc_departure car) (time_step self) of
                     Inl e \<Rightarrow> Inl e | Inr required \<Rightarrow>
                  (case py_get (b_soc (aux_battery car)) (time_step self) of
                     Inl e \<Rightarrow> Inl e | Inr aux_soc \<Rightarrow>
                  (let energy_aux = min (max_charging_power self)
                                      (b_capacity (aux_battery car) * required - aux_soc);
                       aux = charge (aux_battery car) energy_aux
                   in case py_get (b_electricity_consumption aux) (- 1) of Inl e \<Rightarrow> Inl e
                      | Inr c_aux \<Rightarrow>
                  (case py_set (electricity_consumption_without_partial_load self)
                          (time_step self) c_aux of
                     Inl e \<Rightarrow> Inl e
                   | Inr ecw \<Rightarrow>
                      Inr (self\<lparr>connected_ev := Some (car\<lparr>battery := bat, aux_battery := aux\<rparr>),
                                electricity_consumption := ec,
                                electricity_consumption_without_partial_load := ecw\<rparr>))))))))))"

subsection \<open>\<open>electric_vehicle.adjust_ev_soc_on_system_connection\<close>\<close>

text \<open>
  \<open>draw\<close> is the sample of \<open>np.random.normal(0, 0.1)\<close>. The two definitions are the local
  variables \<open>variation_percentage\<close> and \<open>soc_final_kwh\<close> (for either battery).
\<close>

definition variation_percentage :: "real \<Rightarrow> real" where
  "variation_percentage draw = np_clip draw (- 0.2) 0.2"

definition soc_final_kwh :: "Battery \<Rightarrow> real \<Rightarrow> real \<Rightarrow> real" where
  "soc_final_kwh b soc_system_connection draw =
     (let soc_system_connection_kwh = b_capacity b * (soc_system_connection / 100);
          variation_kwh = variation_percentage draw * soc_system_connection_kwh
      in soc_system_connection_kwh + variation_kwh)"

definition adjust_ev_soc_on_system_connection ::
  "(Battery \<Rightarrow> real \<Rightarrow> Battery) \<Rightarrow> electric_vehicle \<Rightarrow> real \<Rightarrow> real \<Rightarrow> electric_vehicle" where
  "adjust_ev_soc_on_system_connection set_ad_hoc_charge self soc_system_connection draw =
     (let soc_init_kwh = b_initial_soc (battery self);
          aux_soc_init_kwh = b_initial_soc (aux_battery self);
          soc_final = soc_final_kwh (battery self) soc_system_connection draw;
          aux_soc_final = soc_final_kwh (aux_battery self) soc_system_connection draw
      in self\<lparr>battery := set_ad_hoc_charge (battery self) (soc_final - soc_init_kwh),
              aux_battery :=
                set_ad_hoc_charge (aux_battery self) (aux_soc_final - aux_soc_init_kwh)\<rparr>)"

text \<open>
  The specification's reading of the prior state of charge: the entry of the battery's
  series at the vehicle's time step.
\<close>

definition spec_prior_soc :: "electric_vehicle \<Rightarrow> Battery \<Rightarrow> error + real" where
  "spec_prior_soc self b = py_get (b_soc b) (time_step self)"

section \<open>Invariants and example objects\<close>

text \<open>
  The five sequences of the stored transitions at the positions \<open>picks\<close>, in that order:
  what a sample at these positions is to return.
\<close>

definition columns_at :: "transition list \<Rightarrow> nat list \<Rightarrow> batch" where
  "columns_at stored picks =
     (map (\<lambda>i. case stored ! i of (s, a, r, s', d) \<Rightarrow> s) picks,
      map (\<lambda>i. case stored ! i of (s, a, r, s', d) \<Rightarrow> a) picks,
      map (\<lambda>i. case stored ! i of (s, a, r, s', d) \<Rightarrow> r) picks,
      map (\<lambda>i. case stored ! i of (s, a, r, s', d) \<Rightarrow> s') picks,
      map (\<lambda>i. case stored ! i of (s, a, r, s', d) \<Rightarrow> d) picks)"


text \<open>
  The state of a memory of capacity \<open>C\<close> after the pushes \<open>ts\<close>: the length, the write
  cursor, where each of the latest transitions sits, and the contents as a multiset.
\<close>

definition ring_inv :: "int \<Rightarrow> transition list \<Rightarrow> ReplayMemory \<Rightarrow> bool" where
  "ring_inv C ts m \<longleftrightarrow>
     capacity m = C \<and>
     length (buffer m) = min (length ts) (nat C) \<and>
     position m = int (length ts mod nat C) \<and>
     (\<forall>i<length ts. length ts - nat C \<le> i \<longrightarrow> buffer m ! (i mod nat C) = Some (ts ! i)) \<and>
     mset (buffer m) = mset (map Some (drop (length ts - nat C) ts))"

text \<open>
  A stand-in for the methods \<open>Battery.charge\<close> and \<open>Battery.set_ad_hoc_charge\<close> in the
  examples: it appends the energy it is passed to the consumption series.
\<close>

definition recording_charge :: "Battery \<Rightarrow> real \<Rightarrow> Battery" where
  "recording_charge b energy =
     b\<lparr>b_electricity_consumption := b_electricity_consumption b @ [energy]\<rparr>"

text \<open>A vehicle with 50 kWh batteries holding \<open>s\<close> kWh, and a charger it is plugged into.\<close>

definition car_with_soc :: "real \<Rightarrow> electric_vehicle" where
  "car_with_soc s =
     \<lparr>time_step = 0,
      battery = \<lparr>b_capacity = 50, b_soc = [s], b_initial_soc = s, b_nominal_power = 10,
                 b_electricity_consumption = [0]\<rparr>,
      aux_battery = \<lparr>b_capacity = 50, b_soc = [s], b_initial_soc = s, b_nominal_power = 10,
                 b_electricity_consumption = [0]\<rparr>,
      ev_required_soc_departure = [1], ev_estimated_soc_arrival = [40]\<rparr>"

definition charger_with :: "electric_vehicle \<Rightarrow> Charger" where
  "charger_with car =
     \<lparr>time_step = 0, efficiency = 0.9, max_charging_power = 50, max_discharging_power = 50,
      connected_ev = Some car, past_charging_action_values = [0],
      electricity_consumption = [0], electricity_consumption_without_partial_load = [0]\<rparr>"

text \<open>
  A vehicle at its second time step: the battery started the episode with 10 kWh and
  holds 30 kWh now.
\<close>

definition ev_example :: electric_vehicle where
  "ev_example =
     \<lparr>time_step = 1,
      battery = \<lparr>b_capacity = 50, b_soc = [10, 30], b_initial_soc = 10, b_nominal_power = 10,
                 b_electricity_consumption = []\<rparr>,
      aux_battery = \<lparr>b_capacity = 40, b_soc = [8, 8], b_initial_soc = 8, b_nominal_power = 10,
                 b_electricity_consumption = []\<rparr>,
      ev_required_soc_departure = [1, 1], ev_estimated_soc_arrival = [40, 40]\<rparr>"

text \<open>A learner as \<open>SAC.__init__\<close> leaves it (no checkpoint, networks without parameters).\<close>

definition learner_example :: SAC where
  "learner_example =
     \<lparr>critic = [], critic_target = [], policy = [],
      memory = ReplayMemory_init replay_size,
      autoregressive_action_memory = AutoRegressiveMemory_init 1,
      action_tracker = [], reward_tracker = [], day_list = replicate 24 0\<rparr>"

text \<open>
  Of a call: the hour index it carries (\<open>int(states[2])\<close>) and the consumption value it
  records (\<open>env.net_electric_consumption[-1]\<close>); of what a call returns: the fourth
  component, \<open>max_peak / 50 * sw6\<close>.
\<close>

definition call_hour :: "call \<Rightarrow> int" where
  "call_hour c =
     (case c of (net, states, actions, rewards, next_states, dones) \<Rightarrow> py_int (states ! 2))"

definition call_net :: "call \<Rightarrow> real" where
  "call_net c = (case c of (net, states, actions, rewards, next_states, dones) \<Rightarrow> last net)"

definition peak_term :: "shaped \<Rightarrow> real" where
  "peak_term r = (case r of (total_rewards, r5, p4, peak, h7) \<Rightarrow> peak)"

text \<open>The 24 slots of the day after the values \<open>vs\<close> were written from slot 0 on.\<close>

definition day_slots :: "real list \<Rightarrow> real list" where
  "day_slots vs = vs @ replicate (24 - length vs) 0"

text \<open>
  The specification's daily peak, from its words: of the observations (hour,
  consumption) so far, the maximum of the consumptions from the latest observation at hour 1
  on, that of the current step included.
\<close>

definition spec_since_reset :: "(int \<times> real) list \<Rightarrow> real list" where
  "spec_since_reset hist = foldl (\<lambda>acc (h, v). if h = 1 then [v] else acc @ [v]) [] hist"

definition spec_daily_peak :: "(int \<times> real) list \<Rightarrow> real" where
  "spec_daily_peak hist = Max (set (spec_since_reset hist))"

text \<open>Four calls at the hours 1 to 4, the consumption being 10, 5, 20 and 8.\<close>

definition day_example :: "call list" where
  "day_example =
     [([10], [0, 0, 1], [0.5], 0, [0, 0, 2], False),
      ([10, 5], [0, 0, 2], [0.5], 0, [0, 0, 3], False),
      ([10, 5, 20], [0, 0, 3], [0.5], 0, [0, 0, 4], False),
      ([10, 5, 20, 8], [0, 0, 4], [0.5], 0, [0, 0, 5], False)]"

section \<open>Properties of the replay memory\<close>

lemma pushes_snoc:
  "pushes m (ts @ [t]) = (case pushes m ts of Inl e \<Rightarrow> Inl e | Inr m' \<Rightarrow> push m' t)"
  by (induction ts arbitrary: m) (auto split: sum.splits)

lemma py_set_in_range:
  "i < length xs \<Longrightarrow> py_set xs (int i) v = Inr (xs[i := v])"
  by (simp add: py_set_def py_index_def Let_def)

lemma mod_neq_close:
  fixes i n c :: nat
  assumes "i < n" "n - i < c"
  shows "i mod c \<noteq> n mod c"
proof
  assume "i mod c = n mod c"
  then have "c dvd n - i" using assms(1) by (metis mod_eq_dvd_iff_nat less_imp_le_nat)
  moreover have "0 < n - i" using assms(1) by simp
  ultimately show False using assms(2) by (meson dvd_imp_le not_le)
qed

lemma push_fill:
  assumes C: "0 < C" and inv: "ring_inv C ts m" and lt: "length ts < nat C"
  shows "push m t = Inr (m\<lparr>buffer := buffer m @ [Some t],
                          position := int (Suc (length ts) mod nat C)\<rparr>)"
proof -
  have len: "length (buffer m) = length ts" using inv lt by (simp add: ring_inv_def)
  have pos: "position m = int (length ts)" using inv lt by (simp add: ring_inv_def)
  have cap: "capacity m = C" using inv by (simp add: ring_inv_def)
  have below: "int (length (buffer m)) < capacity m" using len cap lt by linarith
  have set: "py_set (buffer m @ [None]) (position m) (Some t) = Inr (buffer m @ [Some t])"
    using py_set_in_range[of "length ts" "buffer m @ [None]" "Some t"] len pos
      list_update_length[of "buffer m" None "[]" "Some t"] by simp
  have "(int (length ts) + 1) mod C = int (Suc (length ts) mod nat C)"
    using C by (simp add: zmod_int add.commute)
  then show ?thesis
    using below set cap pos C by (simp add: push_def Let_def)
qed

lemma push_full:
  assumes C: "0 < C" and inv: "ring_inv C ts m" and ge: "nat C \<le> length ts"
  shows "push m t = Inr (m\<lparr>buffer := (buffer m)[length ts mod nat C := Some t],
                          position := int (Suc (length ts) mod nat C)\<rparr>)"
proof -
  have len: "length (buffer m) = nat C" using inv ge by (simp add: ring_inv_def)
  have pos: "position m = int (length ts mod nat C)" using inv by (simp add: ring_inv_def)
  have cap: "capacity m = C" using inv by (simp add: ring_inv_def)
  have full: "\<not> int (length (buffer m)) < capacity m" using len cap C by simp
  have "length ts mod nat C < length (buffer m)" using len C by simp
  then have set: "py_set (buffer m) (position m) (Some t)
                  = Inr ((buffer m)[length ts mod nat C := Some t])"
    using py_set_in_range pos by simp
  have "(int (length ts mod nat C) + 1) mod C = int (Suc (length ts) mod nat C)"
    using C by (simp add: zmod_int add.commute mod_simps)
  then show ?thesis
    using full set cap pos C by (simp add: push_def Let_def)
qed

lemma ring_inv_init: "ring_inv C [] (ReplayMemory_init C)"
  by (simp add: ring_inv_def ReplayMemory_init_def)

lemma ring_inv_push:
  assumes C: "0 < C" and inv: "ring_inv C ts m"
  shows "\<exists>m'. push m t = Inr m' \<and> ring_inv C (ts @ [t]) m'"
proof (cases "length ts < nat C")
  case True
  let ?m' = "m\<lparr>buffer := buffer m @ [Some t], position := int (Suc (length ts) mod nat C)\<rparr>"
  have len: "length (buffer m) = length ts" using inv True by (simp add: ring_inv_def)
  have old: "\<forall>i<length ts. buffer m ! i = Some (ts ! i)"
    using inv True by (simp add: ring_inv_def)
  have ms: "mset (buffer m) = mset (map Some ts)" using inv True by (simp add: ring_inv_def)
  have cont: "\<forall>i<length (ts @ [t]). length (ts @ [t]) - nat C \<le> i \<longrightarrow>
                 buffer ?m' ! (i mod nat C) = Some ((ts @ [t]) ! i)"
  proof (intro allI impI)
    fix i assume i: "i < length (ts @ [t])"
    then have "i mod nat C = i" using True by simp
    then show "buffer ?m' ! (i mod nat C) = Some ((ts @ [t]) ! i)"
      using i old len by (cases "i = length ts") (simp_all add: nth_append)
  qed
  have "ring_inv C (ts @ [t]) ?m'"
    unfolding ring_inv_def
    apply (intro conjI)
    using inv apply (simp add: ring_inv_def)
    using len True apply simp
      apply simp
    using cont apply blast
    using ms True apply simp
    done
  then show ?thesis using push_fill[OF C inv True] by blast
next
  case False
  then have ge: "nat C \<le> length ts" by simp
  let ?p = "length ts mod nat C"
  let ?m' = "m\<lparr>buffer := (buffer m)[?p := Some t], position := int (Suc (length ts) mod nat C)\<rparr>"
  have c0: "0 < nat C" using C by simp
  have len: "length (buffer m) = nat C" using inv ge by (simp add: ring_inv_def)
  have old: "\<forall>i<length ts. length ts - nat C \<le> i \<longrightarrow> buffer m ! (i mod nat C) = Some (ts ! i)"
    using inv by (simp add: ring_inv_def)
  have ms: "mset (buffer m) = mset (map Some (drop (length ts - nat C) ts))"
    using inv by (simp add: ring_inv_def)
  have p: "?p < length (buffer m)" using len c0 by simp
  have cont: "\<forall>i<length (ts @ [t]). length (ts @ [t]) - nat C \<le> i \<longrightarrow>
                 buffer ?m' ! (i mod nat C) = Some ((ts @ [t]) ! i)"
  proof (intro allI impI)
    fix i assume i: "i < length (ts @ [t])" and lo: "length (ts @ [t]) - nat C \<le> i"
    show "buffer ?m' ! (i mod nat C) = Some ((ts @ [t]) ! i)"
    proof (cases "i = length ts")
      case True
      then show ?thesis using p by simp
    next
      case False
      then have il: "i < length ts" using i by simp
      have "length ts - i < nat C" using lo ge il by simp
      then have ne: "i mod nat C \<noteq> ?p" using mod_neq_close[OF il] by simp
      have "length ts - nat C \<le> i" using lo by simp
      then have "buffer m ! (i mod nat C) = Some (ts ! i)" using old il by simp
      then show ?thesis using ne il by (simp add: nth_append)
    qed
  qed
  have oldest: "buffer m ! ?p = Some (ts ! (length ts - nat C))"
  proof -
    have "length ts - nat C < length ts" using c0 ge by simp
    then have "buffer m ! ((length ts - nat C) mod nat C) = Some (ts ! (length ts - nat C))"
      using old by simp
    moreover have "(length ts - nat C) mod nat C = ?p" using ge by (simp add: le_mod_geq)
    ultimately show ?thesis by simp
  qed
  have dr: "drop (length ts - nat C) ts = ts ! (length ts - nat C) # drop (Suc (length ts) - nat C) ts"
  proof -
    have "length ts - nat C < length ts" using c0 ge by simp
    then have "drop (length ts - nat C) ts = ts ! (length ts - nat C) # drop (Suc (length ts - nat C)) ts"
      by (simp add: Cons_nth_drop_Suc)
    moreover have "Suc (length ts - nat C) = Suc (length ts) - nat C" using ge by simp
    ultimately show ?thesis by simp
  qed
  have ms': "mset (buffer ?m') = mset (map Some (drop (length (ts @ [t]) - nat C) (ts @ [t])))"
  proof -
    have "mset (buffer ?m') = add_mset (Some t) (mset (buffer m) - {#buffer m ! ?p#})"
      using p by (simp add: mset_update)
    also have "\<dots> = add_mset (Some t) (mset (map Some (drop (Suc (length ts) - nat C) ts)))"
      using ms oldest dr by simp
    also have "\<dots> = mset (map Some (drop (length (ts @ [t]) - nat C) (ts @ [t])))"
      using ge c0 by simp
    finally show ?thesis .
  qed
  have "ring_inv C (ts @ [t]) ?m'"
    unfolding ring_inv_def
    apply (intro conjI)
    using inv apply (simp add: ring_inv_def)
    using len ge apply simp
      apply simp
    using cont apply blast
    using ms' apply blast
    done
  then show ?thesis using push_full[OF C inv ge] by blast
qed

lemma pushes_ring_inv:
  assumes C: "0 < C"
  shows "\<exists>m. pushes (ReplayMemory_init C) ts = Inr m \<and> ring_inv C ts m"
proof (induction ts rule: rev_induct)
  case Nil
  show ?case by (simp add: ring_inv_init)
next
  case (snoc t ts)
  then obtain m where m: "pushes (ReplayMemory_init C) ts = Inr m" and inv: "ring_inv C ts m" by blast
  obtain m' where "push m t = Inr m'" "ring_inv C (ts @ [t]) m'"
    using ring_inv_push[OF C inv] by blast
  then show ?case using m by (simp add: pushes_snoc)
qed

lemma push_init_nonpositive:
  "C \<le> 0 \<Longrightarrow> push (ReplayMemory_init C) t = Inl IndexError"
  by (simp add: push_def ReplayMemory_init_def py_set_def py_index_def Let_def)

lemma pushes_init_nonpositive:
  assumes "C \<le> 0" and "pushes (ReplayMemory_init C) ts = Inr m"
  shows "ts = [] \<and> m = ReplayMemory_init C"
proof (cases ts)
  case Nil
  then show ?thesis using assms(2) by simp
next
  case (Cons t ts')
  then show ?thesis using assms(2) push_init_nonpositive[OF assms(1)] by simp
qed

text \<open>
  C3. On a fresh memory of capacity \<open>C\<close>, every sequence \<open>ts\<close> of pushes goes through
  when \<open>C\<close> is positive (with capacity 0 the first push raises); after the pushes the
  length of the buffer is \<open>min (length ts) C\<close>, the write cursor is \<open>length ts mod C\<close>,
  each of the latest \<open>C\<close> transitions sits at its index modulo \<open>C\<close> (so a push beyond
  the capacity has overwritten the oldest one), and the buffer holds exactly the latest
  \<open>C\<close> transitions.
\<close>

theorem replay_ring:
  assumes "0 \<le> C"
  shows "(0 < C \<longrightarrow> (\<exists>m. pushes (ReplayMemory_init C) ts = Inr m)) \<and>
         (\<forall>m. pushes (ReplayMemory_init C) ts = Inr m \<longrightarrow>
             int (len_ReplayMemory m) = min (int (length ts)) C \<and>
             position m = int (length ts) mod C \<and>
             (\<forall>i<length ts. length ts - nat C \<le> i \<longrightarrow>
                 buffer m ! (i mod nat C) = Some (ts ! i)) \<and>
             mset (buffer m) = mset (map Some (drop (length ts - nat C) ts)))"
proof (intro conjI impI allI)
  assume "0 < C"
  then show "\<exists>m. pushes (ReplayMemory_init C) ts = Inr m"
    using pushes_ring_inv by blast
next
  fix m
  assume r: "pushes (ReplayMemory_init C) ts = Inr m"
  have inv: "ring_inv C ts m"
  proof (cases "0 < C")
    case True
    then obtain m' where "pushes (ReplayMemory_init C) ts = Inr m'" "ring_inv C ts m'"
      using pushes_ring_inv by blast
    then show ?thesis using r by simp
  next
    case False
    then have "ts = [] \<and> m = ReplayMemory_init C"
      using pushes_init_nonpositive[of C ts m] r by simp
    then show ?thesis by (simp add: ring_inv_init)
  qed
  show "int (len_ReplayMemory m) = min (int (length ts)) C"
    using inv assms by (simp add: ring_inv_def len_ReplayMemory_def)
  show "position m = int (length ts) mod C"
    using inv assms by (simp add: ring_inv_def zmod_int)
  show "mset (buffer m) = mset (map Some (drop (length ts - nat C) ts))"
    using inv by (simp add: ring_inv_def)
  fix i
  assume "i < length ts" "length ts - nat C \<le> i"
  then show "buffer m ! (i mod nat C) = Some (ts ! i)"
    using inv by (simp add: ring_inv_def)
qed

theorem replay_ring_witness:
  "pushes (ReplayMemory_init 2) [([1], [1], 1, [1], False), ([2], [2], 2, [2], False),
                                 ([3], [3], 3, [3], True)]
     = Inr \<lparr>capacity = 2,
            buffer = [Some ([3], [3], 3, [3], True), Some ([2], [2], 2, [2], False)],
            position = 1\<rparr>"
proof -
  have c: "(0::int) \<le> 2" by simp
  show ?thesis
    using replay_ring[OF c, of "[([1], [1], 1, [1], False), ([2], [2], 2, [2], False),
                                 ([3], [3], 3, [3], True)]"]
    by (simp add: push_def ReplayMemory_init_def py_set_def py_index_def Let_def)
qed

section \<open>Properties of the sampling\<close>

subsection \<open>The selection on a copy of the population\<close>

lemma randbelow_Some: "randbelow n rs = Some (j, rs') \<Longrightarrow> j < n"
  by (induction rs) (auto split: if_splits)

lemma randbelow_accept: "j < n \<Longrightarrow> randbelow n (j # rs) = Some (j, rs)"
  by simp

text \<open>One round of the first loop, on the live part of the pool.\<close>

lemma take_move_last:
  assumes "j < live" and "live \<le> length pool"
  shows "take (live - 1) (pool[j := pool ! (live - 1)])
         = butlast ((take live pool)[j := last (take live pool)])"
proof -
  have ne: "take live pool \<noteq> []" using assms by auto
  have "last (take live pool) = take live pool ! (length (take live pool) - 1)"
    using ne by (rule last_conv_nth)
  then have l: "last (take live pool) = pool ! (live - 1)"
    using assms by simp
  show ?thesis
    apply (rule nth_equalityI)
    using assms apply simp
    using assms l apply (simp add: nth_butlast nth_list_update)
    done
qed

lemma move_last_distinct:
  assumes "distinct ys" and "j < length ys"
  shows "distinct (butlast (ys[j := last ys])) \<and>
         set (butlast (ys[j := last ys])) = set ys - {ys ! j}"
proof (cases ys rule: rev_cases)
  case Nil
  then show ?thesis using assms by simp
next
  case (snoc zs l)
  show ?thesis
  proof (cases "j < length zs")
    case True
    have d: "distinct zs" "l \<notin> set zs" using assms(1) snoc by auto
    have u: "ys[j := last ys] = zs[j := l] @ [l]" using snoc True by (simp add: list_update_append)
    have s: "set (zs[j := l]) = insert l (set zs - {zs ! j})"
      using d(1) True by (rule set_update_distinct)
    have dd: "distinct (zs[j := l])"
      using d by (simp add: distinct_list_update)
    have zj: "zs ! j \<in> set zs" using True by simp
    have "ys ! j = zs ! j" using snoc True by (simp add: nth_append)
    then show ?thesis using u s dd d zj snoc by auto
  next
    case False
    then have "j = length zs" using assms(2) snoc by simp
    then show ?thesis using snoc assms(1) by auto
  qed
qed

lemma pool_round:
  assumes "j < live" and "live \<le> length pool" and "distinct (take live pool)"
  shows "distinct (take (live - 1) (pool[j := pool ! (live - 1)])) \<and>
         set (take (live - 1) (pool[j := pool ! (live - 1)])) = set (take live pool) - {pool ! j}"
proof -
  have "j < length (take live pool)" using assms by simp
  then show ?thesis
    using move_last_distinct[OF assms(3), of j] take_move_last[OF assms(1,2)] assms(1) by simp
qed

lemma sample_pool_distinct:
  assumes "live \<le> length pool" and "distinct (take live pool)"
    and "sample_pool pool live c rs = Some ps"
  shows "length ps = c \<and> distinct ps \<and> set ps \<subseteq> set (take live pool)"
  using assms
proof (induction c arbitrary: pool live rs ps)
  case 0
  then show ?case by simp
next
  case (Suc c)
  obtain j rs' result where r: "randbelow live rs = Some (j, rs')"
    and s: "sample_pool (pool[j := pool ! (live - 1)]) (live - 1) c rs' = Some result"
    and p: "ps = pool ! j # result"
    using Suc.prems(3) by (auto split: option.splits)
  have j: "j < live" using randbelow_Some[OF r] .
  have pr: "distinct (take (live - 1) (pool[j := pool ! (live - 1)]))"
    "set (take (live - 1) (pool[j := pool ! (live - 1)])) = set (take live pool) - {pool ! j}"
    using pool_round[OF j Suc.prems(1,2)] by auto
  have ih: "length result = c \<and> distinct result \<and>
            set result \<subseteq> set (take (live - 1) (pool[j := pool ! (live - 1)]))"
    apply (rule Suc.IH[OF _ pr(1) s])
    using Suc.prems(1) by simp
  have "pool ! j \<in> set (take live pool)"
    using j Suc.prems(1) by (metis in_set_conv_nth length_take min.absorb2 nth_take)
  then show ?case using ih pr(2) p by auto
qed

lemma sample_pool_map:
  assumes "live \<le> length pool"
  shows "sample_pool (map f pool) live c rs = map_option (map f) (sample_pool pool live c rs)"
  using assms
proof (induction c arbitrary: pool live rs)
  case 0
  then show ?case by simp
next
  case (Suc c)
  show ?case
  proof (cases "randbelow live rs")
    case None
    then show ?thesis by simp
  next
    case (Some a)
    obtain j rs' where a: "a = (j, rs')" by (cases a)
    have j: "j < live" using randbelow_Some Some a by blast
    have l: "live - 1 < length pool" "j < length pool" using j Suc.prems by simp_all
    have u: "(map f pool)[j := map f pool ! (live - 1)] = map f (pool[j := pool ! (live - 1)])"
      using l by (simp add: map_update)
    have ih: "sample_pool (map f (pool[j := pool ! (live - 1)])) (live - 1) c rs'
              = map_option (map f) (sample_pool (pool[j := pool ! (live - 1)]) (live - 1) c rs')"
      apply (rule Suc.IH) using Suc.prems by simp
    show ?thesis using Some a u ih l by (simp split: option.splits)
  qed
qed

lemma pool_draws_Suc:
  "js \<in> pool_draws live (Suc c) \<longleftrightarrow>
     (\<exists>j js'. js = j # js' \<and> j < live \<and> js' \<in> pool_draws (live - 1) c)"
proof
  assume a: "js \<in> pool_draws live (Suc c)"
  then obtain j js' where js: "js = j # js'" by (cases js) (auto simp: pool_draws_def)
  have j: "j < live" using a js by (auto simp: pool_draws_def)
  have "js' ! i < live - 1 - i" if "i < c" for i
  proof -
    have "js ! Suc i < live - Suc i" using a that by (auto simp: pool_draws_def)
    then show ?thesis using js by simp
  qed
  then have "js' \<in> pool_draws (live - 1) c" using a js by (simp add: pool_draws_def)
  then show "\<exists>j js'. js = j # js' \<and> j < live \<and> js' \<in> pool_draws (live - 1) c"
    using js j by blast
next
  assume "\<exists>j js'. js = j # js' \<and> j < live \<and> js' \<in> pool_draws (live - 1) c"
  then obtain j js' where js: "js = j # js'" and j: "j < live"
    and t: "js' \<in> pool_draws (live - 1) c" by blast
  have "js ! i < live - i" if "i < Suc c" for i
  proof (cases i)
    case 0
    then show ?thesis using js j by simp
  next
    case (Suc m)
    then have "js' ! m < live - 1 - m" using t that by (simp add: pool_draws_def)
    then show ?thesis using js Suc by simp
  qed
  then show "js \<in> pool_draws live (Suc c)" using js t by (simp add: pool_draws_def)
qed

lemma pool_draws_0: "js \<in> pool_draws live 0 \<longleftrightarrow> js = []"
  by (simp add: pool_draws_def)

lemma sample_pool_defined:
  "js \<in> pool_draws live c \<Longrightarrow> \<exists>ps. sample_pool pool live c js = Some ps"
proof (induction c arbitrary: pool live js)
  case 0
  then show ?case by simp
next
  case (Suc c)
  then obtain j js' where js: "js = j # js'" and j: "j < live"
    and t: "js' \<in> pool_draws (live - 1) c" using pool_draws_Suc by blast
  obtain ps where "sample_pool (pool[j := pool ! (live - 1)]) (live - 1) c js' = Some ps"
    using Suc.IH[OF t] by blast
  then show ?case using js j by simp
qed

lemma sample_pool_inj:
  assumes "live \<le> length pool" and "distinct (take live pool)"
    and "js \<in> pool_draws live c" and "js' \<in> pool_draws live c"
    and "sample_pool pool live c js = Some ps" and "sample_pool pool live c js' = Some ps"
  shows "js = js'"
  using assms
proof (induction c arbitrary: pool live js js' ps)
  case 0
  then show ?case by (simp add: pool_draws_0)
next
  case (Suc c)
  obtain j t where js: "js = j # t" and j: "j < live" and t: "t \<in> pool_draws (live - 1) c"
    using Suc.prems(3) pool_draws_Suc by blast
  obtain j' t' where js': "js' = j' # t'" and j': "j' < live" and t': "t' \<in> pool_draws (live - 1) c"
    using Suc.prems(4) pool_draws_Suc by blast
  obtain r where r: "sample_pool (pool[j := pool ! (live - 1)]) (live - 1) c t = Some r"
    and p: "ps = pool ! j # r"
    using Suc.prems(5) js j by (auto split: option.splits)
  obtain r' where r': "sample_pool (pool[j' := pool ! (live - 1)]) (live - 1) c t' = Some r'"
    and p': "ps = pool ! j' # r'"
    using Suc.prems(6) js' j' by (auto split: option.splits)
  have e: "take live pool ! j = take live pool ! j'" using p p' j j' by simp
  have "j < length (take live pool)" "j' < length (take live pool)"
    using j j' Suc.prems(1) by simp_all
  then have jj: "j = j'"
    using nth_eq_iff_index_eq[OF Suc.prems(2)] e by blast
  have rr: "r = r'" using p p' by simp
  have d: "distinct (take (live - 1) (pool[j := pool ! (live - 1)]))"
    using pool_round[OF j Suc.prems(1,2)] by simp
  have l: "live - 1 \<le> length (pool[j := pool ! (live - 1)])" using Suc.prems(1) by simp
  have "t = t'"
    using Suc.IH[OF l d t t' r] r' jj rr by simp
  then show ?case using js js' jj by simp
qed

lemma sample_pool_surj:
  assumes "live \<le> length pool" and "distinct (take live pool)"
    and "length ps = c" and "distinct ps" and "set ps \<subseteq> set (take live pool)"
  shows "\<exists>js\<in>pool_draws live c. sample_pool pool live c js = Some ps"
  using assms
proof (induction c arbitrary: pool live ps)
  case 0
  then show ?case by (simp add: pool_draws_0)
next
  case (Suc c)
  obtain p ps' where ps: "ps = p # ps'" using Suc.prems(3) by (cases ps) auto
  have "p \<in> set (take live pool)" using Suc.prems(5) ps by simp
  then obtain j where jl: "j < length (take live pool)" and pj: "take live pool ! j = p"
    by (auto simp: in_set_conv_nth)
  have j: "j < live" using jl by simp
  have pj': "pool ! j = p" using pj j by simp
  have pr: "distinct (take (live - 1) (pool[j := pool ! (live - 1)]))"
    "set (take (live - 1) (pool[j := pool ! (live - 1)])) = set (take live pool) - {pool ! j}"
    using pool_round[OF j Suc.prems(1,2)] by auto
  have sub: "set ps' \<subseteq> set (take (live - 1) (pool[j := pool ! (live - 1)]))"
    using Suc.prems(4,5) ps pr(2) pj' by auto
  have l: "live - 1 \<le> length (pool[j := pool ! (live - 1)])" using Suc.prems(1) by simp
  obtain js' where t: "js' \<in> pool_draws (live - 1) c"
    and s: "sample_pool (pool[j := pool ! (live - 1)]) (live - 1) c js' = Some ps'"
    using Suc.IH[OF l pr(1) _ _ sub] Suc.prems(3,4) ps by auto
  have "j # js' \<in> pool_draws live (Suc c)" using pool_draws_Suc j t by blast
  moreover have "sample_pool pool live (Suc c) (j # js') = Some ps"
    using j s ps pj' by simp
  ultimately show ?case by blast
qed

lemma sample_pool_bij:
  "bij_betw (\<lambda>js. the (sample_pool [0..<n] n k js)) (pool_draws n k) (selections n k)"
proof -
  have l: "n \<le> length [0..<n]" by simp
  have d: "distinct (take n [0..<n])" by simp
  have st: "set (take n [0..<n]) = {..<n}" by auto
  have inj: "inj_on (\<lambda>js. the (sample_pool [0..<n] n k js)) (pool_draws n k)"
  proof (rule inj_onI)
    fix js js'
    assume a: "js \<in> pool_draws n k" and b: "js' \<in> pool_draws n k"
      and e: "the (sample_pool [0..<n] n k js) = the (sample_pool [0..<n] n k js')"
    obtain ps where p: "sample_pool [0..<n] n k js = Some ps"
      using sample_pool_defined[OF a] by blast
    obtain ps' where p': "sample_pool [0..<n] n k js' = Some ps'"
      using sample_pool_defined[OF b] by blast
    have "ps = ps'" using e p p' by simp
    then show "js = js'" using sample_pool_inj[OF l d a b p] p' by simp
  qed
  have img: "(\<lambda>js. the (sample_pool [0..<n] n k js)) ` pool_draws n k = selections n k"
  proof (rule set_eqI, rule iffI)
    fix ps
    assume "ps \<in> (\<lambda>js. the (sample_pool [0..<n] n k js)) ` pool_draws n k"
    then obtain js where a: "js \<in> pool_draws n k" and e: "ps = the (sample_pool [0..<n] n k js)"
      by blast
    obtain qs where q: "sample_pool [0..<n] n k js = Some qs"
      using sample_pool_defined[OF a] by blast
    have "length qs = k \<and> distinct qs \<and> set qs \<subseteq> set (take n [0..<n])"
      using sample_pool_distinct[OF l d q] .
    then show "ps \<in> selections n k" using e q st by (simp add: selections_def)
  next
    fix ps
    assume "ps \<in> selections n k"
    then have "length ps = k" "distinct ps" "set ps \<subseteq> set (take n [0..<n])"
      using st by (simp_all add: selections_def)
    then obtain js where "js \<in> pool_draws n k" "sample_pool [0..<n] n k js = Some ps"
      using sample_pool_surj[OF l d] by blast
    then show "ps \<in> (\<lambda>js. the (sample_pool [0..<n] n k js)) ` pool_draws n k"
      by force
  qed
  show ?thesis using inj img by (simp add: bij_betw_def)
qed

subsection \<open>The selection with a set of the positions selected\<close>

lemma draw_unselected_Some:
  "draw_unselected n selected rs = Some (j, rs') \<Longrightarrow> j < n \<and> j \<notin> selected"
  by (induction rs) (auto split: if_splits)

lemma draw_unselected_loops:
  "draw_unselected n selected rs =
     (case randbelow n rs of
        None \<Rightarrow> None
      | Some (j, rs') \<Rightarrow> if j \<in> selected then draw_unselected n selected rs' else Some (j, rs'))"
  by (induction rs) auto

lemma sample_set_distinct:
  assumes "sample_set [0..<n] selected c rs = Some ps"
  shows "length ps = c \<and> distinct ps \<and> set ps \<inter> selected = {} \<and> set ps \<subseteq> {..<n}"
  using assms
proof (induction c arbitrary: selected rs ps)
  case 0
  then show ?case by simp
next
  case (Suc c)
  obtain j rs' result where d: "draw_unselected n selected rs = Some (j, rs')"
    and s: "sample_set [0..<n] (insert j selected) c rs' = Some result"
    and p: "ps = [0..<n] ! j # result"
    using Suc.prems by (auto split: option.splits)
  have j: "j < n" "j \<notin> selected" using draw_unselected_Some[OF d] by auto
  have ih: "length result = c \<and> distinct result \<and> set result \<inter> insert j selected = {} \<and>
            set result \<subseteq> {..<n}"
    using Suc.IH[OF s] .
  show ?case using ih j p by auto
qed

lemma sample_set_map:
  "sample_set population selected c rs
     = map_option (map (\<lambda>i. population ! i)) (sample_set [0..<length population] selected c rs)"
proof (induction c arbitrary: selected rs)
  case 0
  then show ?case by simp
next
  case (Suc c)
  show ?case
  proof (cases "draw_unselected (length population) selected rs")
    case None
    then show ?thesis by simp
  next
    case (Some a)
    obtain j rs' where a: "a = (j, rs')" by (cases a)
    have j: "j < length population" using draw_unselected_Some Some a by blast
    show ?thesis using Some a j Suc.IH[of "insert j selected" rs']
      by (simp split: option.splits)
  qed
qed

lemma sample_set_clean:
  assumes "distinct js" and "set js \<subseteq> {..<n}" and "set js \<inter> selected = {}"
  shows "sample_set [0..<n] selected (length js) js = Some js"
  using assms
proof (induction js arbitrary: selected)
  case Nil
  then show ?case by simp
next
  case (Cons j js)
  have "sample_set [0..<n] (insert j selected) (length js) js = Some js"
    apply (rule Cons.IH) using Cons.prems by auto
  then show ?case using Cons.prems by simp
qed

lemma draw_unselected_renamed:
  assumes "inj f" and "\<forall>r. f r < n \<longleftrightarrow> r < n"
  shows "draw_unselected n (f ` selected) (map f rs)
         = map_option (\<lambda>(j, rs'). (f j, map f rs')) (draw_unselected n selected rs)"
proof (induction rs)
  case Nil
  then show ?case by simp
next
  case (Cons r rs)
  have "f r \<in> f ` selected \<longleftrightarrow> r \<in> selected" using assms(1) by (simp add: inj_image_mem_iff)
  then show ?case using Cons assms(2) by simp
qed

lemma sample_set_renamed:
  assumes "inj f" and "\<forall>r. f r < n \<longleftrightarrow> r < n"
  shows "sample_set [0..<n] (f ` selected) c (map f rs)
         = map_option (map f) (sample_set [0..<n] selected c rs)"
proof (induction c arbitrary: selected rs)
  case 0
  then show ?case by simp
next
  case (Suc c)
  show ?case
  proof (cases "draw_unselected n selected rs")
    case None
    then show ?thesis using draw_unselected_renamed[OF assms, of selected rs] by simp
  next
    case (Some a)
    obtain j rs' where a: "a = (j, rs')" by (cases a)
    have j: "j < n" using draw_unselected_Some Some a by blast
    then have fj: "f j < n" using assms(2) by simp
    have d: "draw_unselected n (f ` selected) (map f rs) = Some (f j, map f rs')"
      using draw_unselected_renamed[OF assms, of selected rs] Some a by simp
    have ih: "sample_set [0..<n] (f ` insert j selected) c (map f rs')
              = map_option (map f) (sample_set [0..<n] (insert j selected) c rs')"
      by (rule Suc.IH)
    show ?thesis using Some a d ih j fj by (simp split: option.splits)
  qed
qed

lemma renaming_exists:
  assumes "length ps = length qs" and "distinct ps" and "distinct qs"
    and "set ps \<subseteq> {..<n}" and "set qs \<subseteq> {..<n}"
  shows "\<exists>f::nat \<Rightarrow> nat. inj f \<and> (\<forall>r. f r < n \<longleftrightarrow> r < n) \<and> map f ps = qs"
  using assms
proof (induction ps qs rule: list_induct2)
  case Nil
  show ?case by (rule exI[of _ id]) simp
next
  case (Cons p ps q qs)
  have pre: "distinct ps" "distinct qs" "set ps \<subseteq> {..<n}" "set qs \<subseteq> {..<n}"
    using Cons.prems by simp_all
  obtain g :: "nat \<Rightarrow> nat" where g: "inj g" "\<forall>r. g r < n \<longleftrightarrow> r < n" "map g ps = qs"
    using Cons.IH[OF pre] by blast
  define x where "x = g p"
  define sw where "sw = (\<lambda>c::nat. if c = x then q else if c = q then x else c)"
  have pq: "p < n" "q < n" using Cons.prems(3,4) by simp_all
  have xq: "x < n" using g(2) pq(1) by (simp add: x_def)
  have pn: "p \<notin> set ps" using Cons.prems(1) by simp
  have "x \<notin> g ` set ps"
  proof
    assume "x \<in> g ` set ps"
    then obtain y where y: "y \<in> set ps" "g y = g p" by (auto simp: x_def)
    then have "y = p" using g(1) by (simp add: inj_eq)
    then show False using y(1) pn by simp
  qed
  moreover have "set qs = g ` set ps" using g(3) by (metis set_map)
  ultimately have xn: "x \<notin> set qs" by simp
  have qn: "q \<notin> set qs" using Cons.prems(2) by simp
  have isw: "inj sw"
  proof (rule injI)
    fix a b assume "sw a = sw b"
    then show "a = b" unfolding sw_def by (simp split: if_splits)
  qed
  have psw: "sw r < n \<longleftrightarrow> r < n" for r
    unfolding sw_def using xq pq(2) by simp
  have stay: "sw y = y" if "y \<in> set qs" for y
    unfolding sw_def using that xn qn by auto
  have "map sw qs = qs" using stay by (simp add: map_idI)
  moreover have "map (sw \<circ> g) ps = map sw (map g ps)" by simp
  ultimately have m: "map (sw \<circ> g) ps = qs" using g(3) by simp
  have i: "inj (sw \<circ> g)" using isw g(1) by (rule inj_compose)
  have b: "\<forall>r. (sw \<circ> g) r < n \<longleftrightarrow> r < n" using psw g(2) by simp
  have "(sw \<circ> g) p = q" by (simp add: sw_def x_def)
  then have c: "map (sw \<circ> g) (p # ps) = q # qs" using m by simp
  show ?case
  proof (rule exI[of _ "sw \<circ> g"])
    show "inj (sw \<circ> g) \<and> (\<forall>r. (sw \<circ> g) r < n \<longleftrightarrow> r < n) \<and> map (sw \<circ> g) (p # ps) = q # qs"
      using i b c by (intro conjI)
  qed
qed


text \<open>The lists of \<open>len\<close> numbers below \<open>n\<close> on which the second loop selects \<open>ps\<close>.\<close>

lemma set_draws_le:
  assumes "ps \<in> selections n k" and "qs \<in> selections n k"
  shows "card {rs. length rs = len \<and> set rs \<subseteq> {..<n} \<and> sample_set [0..<n] {} k rs = Some ps}
       \<le> card {rs. length rs = len \<and> set rs \<subseteq> {..<n} \<and> sample_set [0..<n] {} k rs = Some qs}"
proof -
  let ?A = "{rs. length rs = len \<and> set rs \<subseteq> {..<n} \<and> sample_set [0..<n] {} k rs = Some ps}"
  let ?B = "{rs. length rs = len \<and> set rs \<subseteq> {..<n} \<and> sample_set [0..<n] {} k rs = Some qs}"
  obtain f :: "nat \<Rightarrow> nat" where f: "inj f" "\<forall>r. f r < n \<longleftrightarrow> r < n" "map f ps = qs"
    using renaming_exists[of ps qs n] assms by (auto simp: selections_def)
  have fin: "finite ?B"
  proof (rule finite_subset)
    show "?B \<subseteq> {rs. set rs \<subseteq> {..<n} \<and> length rs = len}" by auto
    show "finite {rs. set rs \<subseteq> {..<n} \<and> length rs = len}"
      by (rule finite_lists_length_eq) simp
  qed
  have "inj (map f)" using f(1) by (rule inj_mapI)
  then have inj: "inj_on (map f) ?A" by (rule inj_on_subset) simp
  have img: "map f ` ?A \<subseteq> ?B"
  proof
    fix ys assume "ys \<in> map f ` ?A"
    then obtain rs where rs: "length rs = len" "set rs \<subseteq> {..<n}"
      "sample_set [0..<n] {} k rs = Some ps" and ys: "ys = map f rs" by auto
    have "sample_set [0..<n] (f ` {}) k (map f rs) = map_option (map f) (sample_set [0..<n] {} k rs)"
      using sample_set_renamed[OF f(1,2)] .
    then have "sample_set [0..<n] {} k ys = Some qs" using rs(3) f(3) ys by simp
    moreover have "set ys \<subseteq> {..<n}" using rs(2) f(2) ys by auto
    ultimately show "ys \<in> ?B" using rs(1) ys by simp
  qed
  show ?thesis using card_inj_on_le[OF inj img fin] .
qed

lemma set_draws_equal:
  assumes "ps \<in> selections n k" and "qs \<in> selections n k"
  shows "card {rs. length rs = len \<and> set rs \<subseteq> {..<n} \<and> sample_set [0..<n] {} k rs = Some ps}
       = card {rs. length rs = len \<and> set rs \<subseteq> {..<n} \<and> sample_set [0..<n] {} k rs = Some qs}"
  using set_draws_le[OF assms] set_draws_le[OF assms(2,1)] by (rule le_antisym)

subsection \<open>\<open>ReplayMemory.sample\<close>\<close>

lemma unslot_map_Some: "unslot (map Some b) = Inr b"
  by (induction b) auto

lemma np_stack_uniform:
  assumes "xs \<noteq> []" and "\<forall>x\<in>set xs. length x = d"
  shows "np_stack xs = Inr xs"
  using assms by (cases xs) (auto simp: np_stack_def list_all_iff)

lemma np_stack0_nonempty: "xs \<noteq> [] \<Longrightarrow> np_stack0 xs = Inr xs"
  by (cases xs) (auto simp: np_stack0_def)

lemma stack_columns_filled:
  assumes shapes: "\<forall>t\<in>set stored. case t of (s, a, r, s', d) \<Rightarrow>
                   length s = ds \<and> length a = da \<and> length s' = dn"
    and ne: "picks \<noteq> []" and inr: "\<forall>i\<in>set picks. i < length stored"
  shows "stack_columns (map (\<lambda>i. map Some stored ! i) picks) = Inr (columns_at stored picks)"
proof -
  let ?b = "map (\<lambda>i. stored ! i) picks"
  have sl: "map (\<lambda>i. map Some stored ! i) picks = map Some ?b"
    using inr by simp
  have us: "unslot (map Some ?b) = Inr ?b" by (rule unslot_map_Some)
  have bne: "?b \<noteq> []" using ne by simp
  have mem: "\<forall>t\<in>set ?b. t \<in> set stored" using inr by auto
  have s1: "np_stack (map (\<lambda>(s, a, r, s', d). s) ?b) = Inr (map (\<lambda>(s, a, r, s', d). s) ?b)"
    apply (rule np_stack_uniform[where d = ds])
    using bne apply simp
    using mem shapes apply fastforce
    done
  have s2: "np_stack (map (\<lambda>(s, a, r, s', d). a) ?b) = Inr (map (\<lambda>(s, a, r, s', d). a) ?b)"
    apply (rule np_stack_uniform[where d = da])
    using bne apply simp
    using mem shapes apply fastforce
    done
  have s3: "np_stack0 (map (\<lambda>(s, a, r, s', d). r) ?b) = Inr (map (\<lambda>(s, a, r, s', d). r) ?b)"
    using bne by (simp add: np_stack0_nonempty)
  have s4: "np_stack (map (\<lambda>(s, a, r, s', d). s') ?b) = Inr (map (\<lambda>(s, a, r, s', d). s') ?b)"
    apply (rule np_stack_uniform[where d = dn])
    using bne apply simp
    using mem shapes apply fastforce
    done
  have s5: "np_stack0 (map (\<lambda>(s, a, r, s', d). d) ?b) = Inr (map (\<lambda>(s, a, r, s', d). d) ?b)"
    using bne by (simp add: np_stack0_nonempty)
  have "stack_columns (map Some ?b) =
          Inr (map (\<lambda>(s, a, r, s', d). s) ?b, map (\<lambda>(s, a, r, s', d). a) ?b,
               map (\<lambda>(s, a, r, s', d). r) ?b, map (\<lambda>(s, a, r, s', d). s') ?b,
               map (\<lambda>(s, a, r, s', d). d) ?b)"
    unfolding stack_columns_def
    apply (simp only: sum.case us)
    apply (simp only: s1 s2 s3 s4 s5 sum.case bne if_False)
    done
  then show ?thesis unfolding sl columns_at_def by (simp only: map_map comp_def)
qed

lemma random_sample_positions:
  assumes "0 \<le> k" and "k \<le> int (length population)"
  shows "random_sample population k rs
         = map_option (\<lambda>picks. Inr (map (\<lambda>i. population ! i) picks))
             (sample_positions (length population) (nat k) rs)"
proof -
  let ?n = "length population"
  have p: "sample_pool population ?n (nat k) rs
           = map_option (map (\<lambda>i. population ! i)) (sample_pool [0..<?n] ?n (nat k) rs)"
    using sample_pool_map[of ?n "[0..<?n]" "\<lambda>i. population ! i" "nat k" rs]
    by (simp add: map_nth)
  have s: "sample_set population {} (nat k) rs
           = map_option (map (\<lambda>i. population ! i)) (sample_set [0..<?n] {} (nat k) rs)"
    by (rule sample_set_map)
  show ?thesis
    using assms p s
    by (simp add: random_sample_def sample_positions_def Let_def option.map_comp comp_def)
qed

lemma sample_positions_selection:
  assumes "sample_positions n k rs = Some picks"
  shows "length picks = k \<and> distinct picks \<and> (\<forall>i\<in>set picks. i < n)"
proof (cases "n \<le> setsize k")
  case True
  then have "sample_pool [0..<n] n k rs = Some picks" using assms by (simp add: sample_positions_def)
  then have "length picks = k \<and> distinct picks \<and> set picks \<subseteq> set (take n [0..<n])"
    by (intro sample_pool_distinct) simp_all
  then show ?thesis by auto
next
  case False
  then have "sample_set [0..<n] {} k rs = Some picks" using assms by (simp add: sample_positions_def)
  then show ?thesis using sample_set_distinct by fastforce
qed

lemma sample_fails:
  "k < 0 \<or> int (length (buffer m)) < k \<Longrightarrow> sample m k rs = Some (Inl ValueError)"
  by (auto simp: sample_def random_sample_def Let_def)

lemma sample_filled:
  assumes buf: "buffer m = map Some stored"
    and shapes: "\<forall>t\<in>set stored. case t of (s, a, r, s', d) \<Rightarrow>
                   length s = ds \<and> length a = da \<and> length s' = dn"
    and k: "1 \<le> k" "k \<le> int (length stored)"
  shows "sample m k rs
         = map_option (\<lambda>picks. Inr (columns_at stored picks))
             (sample_positions (length stored) (nat k) rs)"
proof (cases "sample_positions (length stored) (nat k) rs")
  case None
  then show ?thesis
    using random_sample_positions[of k "buffer m" rs] k buf by (simp add: sample_def)
next
  case (Some picks)
  have sel: "length picks = nat k \<and> distinct picks \<and> (\<forall>i\<in>set picks. i < length stored)"
    using sample_positions_selection[OF Some] .
  have ne: "picks \<noteq> []" using sel k by auto
  have r: "random_sample (buffer m) k rs = Some (Inr (map (\<lambda>i. map Some stored ! i) picks))"
    using random_sample_positions[of k "buffer m" rs] k buf Some by simp
  have "stack_columns (map (\<lambda>i. map Some stored ! i) picks) = Inr (columns_at stored picks)"
    using stack_columns_filled[OF shapes ne] sel by blast
  then show ?thesis using r Some by (simp add: sample_def)
qed

lemma pushes_filled:
  assumes "pushes (ReplayMemory_init C) ts = Inr m"
  shows "\<exists>stored. buffer m = map Some stored \<and> set stored \<subseteq> set ts"
proof (cases "0 < C")
  case True
  obtain m' where m': "pushes (ReplayMemory_init C) ts = Inr m'" and inv: "ring_inv C ts m'"
    using pushes_ring_inv[OF True] by blast
  have mm: "m' = m" using m' assms by simp
  let ?r = "drop (length ts - nat C) ts"
  have "mset (buffer m) = mset (map Some ?r)" using inv mm by (simp add: ring_inv_def)
  then have "set (buffer m) = set (map Some ?r)" by (metis set_mset_mset)
  then have el: "\<forall>x\<in>set (buffer m). \<exists>t\<in>set ts. x = Some t"
    using set_drop_subset[of "length ts - nat C" ts] by auto
  have "map (\<lambda>x. Some (the x)) (buffer m) = buffer m"
    using el by (intro map_idI) auto
  then have "buffer m = map Some (map the (buffer m))"
    by (simp add: comp_def)
  moreover have "set (map the (buffer m)) \<subseteq> set ts" using el by auto
  ultimately show ?thesis by blast
next
  case False
  then have "ts = [] \<and> m = ReplayMemory_init C"
    using pushes_init_nonpositive[of C ts m] assms by simp
  then show ?thesis by (simp add: ReplayMemory_init_def)
qed

lemma sample_positions_returns:
  "(n \<le> setsize k \<longrightarrow> (\<forall>js\<in>pool_draws n k. sample_positions n k js \<noteq> None)) \<and>
   (setsize k < n \<longrightarrow> (\<forall>js\<in>selections n k. sample_positions n k js = Some js))"
proof (intro conjI impI ballI)
  fix js assume "n \<le> setsize k" and "js \<in> pool_draws n k"
  then show "sample_positions n k js \<noteq> None"
    using sample_pool_defined[of js n k "[0..<n]"] by (auto simp: sample_positions_def)
next
  fix js assume a: "setsize k < n" and b: "js \<in> selections n k"
  have "sample_set [0..<n] {} (length js) js = Some js"
    using b by (intro sample_set_clean) (simp_all add: selections_def)
  then show "sample_positions n k js = Some js"
    using a b by (simp add: sample_positions_def selections_def)
qed

lemma sample_positions_uniform:
  "(n \<le> setsize k \<longrightarrow>
      bij_betw (\<lambda>js. the (sample_positions n k js)) (pool_draws n k) (selections n k)) \<and>
   (setsize k < n \<longrightarrow>
      (\<forall>ps\<in>selections n k. \<forall>qs\<in>selections n k. \<forall>len.
         card {rs. length rs = len \<and> set rs \<subseteq> {..<n} \<and> sample_positions n k rs = Some ps}
       = card {rs. length rs = len \<and> set rs \<subseteq> {..<n} \<and> sample_positions n k rs = Some qs}))"
proof (intro conjI impI ballI allI)
  assume a: "n \<le> setsize k"
  have "(\<lambda>js. the (sample_positions n k js)) = (\<lambda>js. the (sample_pool [0..<n] n k js))"
    using a by (simp add: sample_positions_def)
  then show "bij_betw (\<lambda>js. the (sample_positions n k js)) (pool_draws n k) (selections n k)"
    using sample_pool_bij[of n k] by simp
next
  fix ps qs len
  assume a: "setsize k < n" and p: "ps \<in> selections n k" and q: "qs \<in> selections n k"
  have e: "sample_positions n k rs = sample_set [0..<n] {} k rs" for rs
    using a by (simp add: sample_positions_def)
  show "card {rs. length rs = len \<and> set rs \<subseteq> {..<n} \<and> sample_positions n k rs = Some ps}
       = card {rs. length rs = len \<and> set rs \<subseteq> {..<n} \<and> sample_positions n k rs = Some qs}"
    unfolding e using set_draws_equal[OF p q] .
qed

lemmas sample_eval = sample_def random_sample_def setsize_def stack_columns_def np_stack_def
  np_stack0_def len_ReplayMemory_def push_def ReplayMemory_init_def py_set_def py_index_def
  Let_def eval_nat_numeral

text \<open>
  C4 (as amended). Let \<open>m\<close> be a memory after any pushes of transitions whose states,
  actions and next states each have one shape, and \<open>rs\<close> the numbers the generator
  draws. \<open>sample\<close> fails with ValueError when the batch size is negative or exceeds the
  number of stored transitions. For a batch size \<open>k\<close> from 1 to that number it returns,
  as soon as the positions are drawn, the five sequences of the states, actions, rewards,
  next states and done flags of the transitions at the positions drawn, in the order
  drawn; the positions are \<open>k\<close> different positions of the buffer, whatever the generator
  draws. The draw is uniform without replacement: on a copy of the population (up to
  \<open>setsize\<close>) every list of numbers that the \<open>k\<close> calls of \<open>randbelow\<close> can return gives
  a selection, and these lists correspond one to one to the ordered selections of \<open>k\<close>
  different positions; with the set of selected positions (beyond \<open>setsize\<close>) a list of
  \<open>k\<close> different positions is selected as it stands, and among the lists of any length
  of numbers below the size of the buffer every ordered selection is drawn by equally many.
\<close>

theorem sample_batch:
  assumes reach: "pushes (ReplayMemory_init C) ts = Inr m"
    and shapes: "\<forall>t\<in>set ts. case t of (s, a, r, s', d) \<Rightarrow>
                   length s = ds \<and> length a = da \<and> length s' = dn"
  shows "(k < 0 \<or> int (len_ReplayMemory m) < k \<longrightarrow> sample m k rs = Some (Inl ValueError)) \<and>
         (1 \<le> k \<and> k \<le> int (len_ReplayMemory m) \<longrightarrow>
            (\<exists>stored. buffer m = map Some stored \<and>
               sample m k rs = map_option (\<lambda>picks. Inr (columns_at stored picks))
                                 (sample_positions (len_ReplayMemory m) (nat k) rs)) \<and>
            (\<forall>picks. sample_positions (len_ReplayMemory m) (nat k) rs = Some picks \<longrightarrow>
               length picks = nat k \<and> distinct picks \<and> (\<forall>i\<in>set picks. i < len_ReplayMemory m)) \<and>
            (len_ReplayMemory m \<le> setsize (nat k) \<longrightarrow>
               (\<forall>js\<in>pool_draws (len_ReplayMemory m) (nat k).
                   sample_positions (len_ReplayMemory m) (nat k) js \<noteq> None) \<and>
               bij_betw (\<lambda>js. the (sample_positions (len_ReplayMemory m) (nat k) js))
                 (pool_draws (len_ReplayMemory m) (nat k)) (selections (len_ReplayMemory m) (nat k))) \<and>
            (setsize (nat k) < len_ReplayMemory m \<longrightarrow>
               (\<forall>js\<in>selections (len_ReplayMemory m) (nat k).
                   sample_positions (len_ReplayMemory m) (nat k) js = Some js) \<and>
               (\<forall>ps\<in>selections (len_ReplayMemory m) (nat k).
                \<forall>qs\<in>selections (len_ReplayMemory m) (nat k). \<forall>len.
                  card {rs. length rs = len \<and> set rs \<subseteq> {..<len_ReplayMemory m} \<and>
                            sample_positions (len_ReplayMemory m) (nat k) rs = Some ps}
                = card {rs. length rs = len \<and> set rs \<subseteq> {..<len_ReplayMemory m} \<and>
                            sample_positions (len_ReplayMemory m) (nat k) rs = Some qs})))"
proof -
  let ?n = "len_ReplayMemory m"
  obtain stored where st: "buffer m = map Some stored" and sub: "set stored \<subseteq> set ts"
    using pushes_filled[OF reach] by blast
  have n: "?n = length stored" using st by (simp add: len_ReplayMemory_def)
  have sh: "\<forall>t\<in>set stored. case t of (s, a, r, s', d) \<Rightarrow>
                   length s = ds \<and> length a = da \<and> length s' = dn"
    using shapes sub by blast
  have A: "k < 0 \<or> int ?n < k \<longrightarrow> sample m k rs = Some (Inl ValueError)"
    using sample_fails[of k m rs] by (simp add: len_ReplayMemory_def)
  have B: "\<exists>stored. buffer m = map Some stored \<and>
               sample m k rs = map_option (\<lambda>picks. Inr (columns_at stored picks))
                                 (sample_positions ?n (nat k) rs)"
    if "1 \<le> k \<and> k \<le> int ?n"
    using sample_filled[OF st sh, of k rs] that st n by auto
  have C: "\<forall>picks. sample_positions ?n (nat k) rs = Some picks \<longrightarrow>
               length picks = nat k \<and> distinct picks \<and> (\<forall>i\<in>set picks. i < ?n)"
    using sample_positions_selection by blast
  show ?thesis
    using A B C sample_positions_returns[of ?n "nat k"] sample_positions_uniform[of ?n "nat k"]
    by blast
qed

theorem sample_batch_witness:
  "sample \<lparr>capacity = 2,
           buffer = [Some ([3], [0.3], 3, [4], True), Some ([2], [0.2], 2, [3], False)],
           position = 1\<rparr> 2 [5, 1, 0]
     = Some (Inr ([[2], [3]], [[0.2], [0.3]], [2, 3], [[3], [4]], [False, True])) \<and>
   sample \<lparr>capacity = 2,
           buffer = [Some ([3], [0.3], 3, [4], True), Some ([2], [0.2], 2, [3], False)],
           position = 1\<rparr> 3 [5, 1, 0] = Some (Inl ValueError)"
proof -
  let ?ts = "[([1], [0.1], 1, [2], False), ([2], [0.2], 2, [3], False), ([3], [0.3], 3, [4], True)]"
  let ?m = "\<lparr>capacity = 2,
           buffer = [Some ([3], [0.3], 3, [4], True), Some ([2], [0.2], 2, [3], False)],
           position = 1\<rparr>"
  have r: "pushes (ReplayMemory_init 2) ?ts = Inr ?m" by (simp add: sample_eval)
  have s: "\<forall>t\<in>set ?ts. case t of (s, a, r, s', d) \<Rightarrow>
                   length s = 1 \<and> length a = 1 \<and> length s' = 1" by simp
  show ?thesis
    using sample_batch[OF r s, of 2 "[5, 1, 0]"] sample_batch[OF r s, of 3 "[5, 1, 0]"]
    by (simp add: sample_eval)
qed

text \<open>
  A batch size of 0 does not return five empty sequences: the unpacking of no columns
  raises ValueError. Nor can transitions of different shapes be stacked.
\<close>

theorem sample_empty_batch_counterexample:
  "pushes (ReplayMemory_init 2) [([1], [0.1], 1, [2], False)]
     = Inr \<lparr>capacity = 2, buffer = [Some ([1], [0.1], 1, [2], False)], position = 1\<rparr> \<and>
   sample \<lparr>capacity = 2, buffer = [Some ([1], [0.1], 1, [2], False)], position = 1\<rparr> 0 []
     = Some (Inl ValueError) \<and>
   pushes (ReplayMemory_init 2) [([1], [0.1], 1, [2], False), ([1, 5], [0.1], 1, [2], False)]
     = Inr \<lparr>capacity = 2,
            buffer = [Some ([1], [0.1], 1, [2], False), Some ([1, 5], [0.1], 1, [2], False)],
            position = 0\<rparr> \<and>
   sample_positions 2 2 [0, 0] = Some [0, 1] \<and>
   sample \<lparr>capacity = 2,
           buffer = [Some ([1], [0.1], 1, [2], False), Some ([1, 5], [0.1], 1, [2], False)],
           position = 0\<rparr> 2 [0, 0]
     = Some (Inl ValueError)"
  by (simp add: sample_eval sample_positions_def)

section \<open>Properties of the reward shaping\<close>

lemma push_stored:
  assumes "push m t = Inr m'"
  shows "py_get (buffer m') (position m) = Inr (Some t)"
proof -
  define buf where "buf = (if int (length (buffer m)) < capacity m then buffer m @ [None] else buffer m)"
  obtain buf' where s: "py_set buf (position m) (Some t) = Inr buf'" and b: "buffer m' = buf'"
    using assms unfolding push_def buf_def Let_def by (auto split: sum.splits if_splits)
  obtain j where j: "py_index buf (position m) = Inr j" and u: "buf' = buf[j := Some t]"
    using s by (auto simp: py_set_def split: sum.splits)
  have jl: "j < length buf" using j by (auto simp: py_index_def Let_def split: if_splits)
  have "py_index buf' (position m) = Inr j" using j u by (simp add: py_index_def)
  then show ?thesis using u jl b by (simp add: py_get_def)
qed

lemma penal_eq:
  "sum_list (map (\<lambda>x::real. if \<not> (0.001 > x \<and> x > - 0.001) then 1 else - 10) actions)
   = (\<Sum>x\<leftarrow>actions. if \<bar>x\<bar> < 0.001 then - 10 else (1::real))"
proof -
  have "(\<lambda>x::real. if \<not> (0.001 > x \<and> x > - 0.001) then 1 else - 10)
        = (\<lambda>x. if \<bar>x\<bar> < 0.001 then - 10 else (1::real))"
    by (rule ext) (auto simp: abs_less_iff)
  then show ?thesis by simp
qed

lemma np_clip_unit: "np_clip x (- 1) 1 = max (- 1) (min 1 x)"
  by (simp add: np_clip_def min_def max_def)

lemmas learner_eval = add_to_buffer_def daily_peak_def night_charging_boost_def day_charging_pen_def
  mean_gt_def mean_lt_def np_mean_def np_clip_def py_int_def py_get_def py_set_def py_index_def
  push_def ReplayMemory_init_def replay_size_def AutoRegressiveMemory_init_def
  AutoRegressiveMemory_push_def learner_example_def sw4_def sw5_def sw6_def sw7_def Let_def

lemma replicate_24: "replicate 24 (x::'a) = [x,x,x,x,x,x,x,x,x,x,x,x,x,x,x,x,x,x,x,x,x,x,x,x]"
  by (simp add: eval_nat_numeral)

text \<open>
  C1. Whenever \<open>add_to_buffer\<close> returns, the reward it returns first, stores in the
  replay memory (at the write cursor) and appends to the reward tracker is
  \<open>0.5 * penalty + 1 * clipped_reward + (-0.5) * (max_peak / 50) + 2 * hour_bonus_penalty\<close>,
  where the clipped reward is the raw reward divided by 5 and clipped into \<open>[-1, 1]\<close>, the
  penalty sums -10 for each action component of magnitude below 0.001 and 1 for each
  other, and the daily peak and the hour term are those the call computes; the other four
  values returned are the four terms.
\<close>

theorem shaped_reward:
  assumes "add_to_buffer self net states actions rewards next_states dones = Inr (self', ret)"
  shows "\<exists>hour max_peak dl'.
           py_get states 2 = Inr hour \<and>
           daily_peak (day_list self) (py_int hour - 1) net = Inr (max_peak, dl') \<and>
           (let penalty = (\<Sum>x\<leftarrow>actions. if \<bar>x\<bar> < 0.001 then - 10 else 1);
                clipped_reward = max (- 1) (min 1 (rewards / 5));
                hour_bonus_penalty = night_charging_boost hour actions + day_charging_pen hour actions;
                total = 0.5 * penalty + 1 * clipped_reward + (- 0.5) * (max_peak / 50)
                        + 2 * hour_bonus_penalty
            in ret = (total, 1 * clipped_reward, 0.5 * penalty, (- 0.5) * (max_peak / 50),
                      2 * hour_bonus_penalty) \<and>
               py_get (buffer (memory self')) (position (memory self))
                 = Inr (Some (states, actions, total, next_states, dones)) \<and>
               reward_tracker self' = reward_tracker self @ [total] \<and>
               - 1 \<le> clipped_reward \<and> clipped_reward \<le> 1)"
proof -
  obtain hour where h: "py_get states 2 = Inr hour"
    using assms by (auto simp: add_to_buffer_def Let_def split: sum.splits)
  obtain max_peak dl' where d: "daily_peak (day_list self) (py_int hour - 1) net = Inr (max_peak, dl')"
    using assms h by (auto simp: add_to_buffer_def Let_def split: sum.splits)
  define total where "total =
     sum_list (map (\<lambda>x::real. if \<not> (0.001 > x \<and> x > - 0.001) then 1 else - 10) actions) * sw4
     + np_clip (rewards / 5) (- 1) 1 * sw5 + max_peak / 50 * sw6
     + (night_charging_boost hour actions + day_charging_pen hour actions) * sw7"
  obtain mem' where p: "push (memory self) (states, actions, total, next_states, dones) = Inr mem'"
    and m: "memory self' = mem'"
    and rt: "reward_tracker self' = reward_tracker self @ [total]"
    and r: "ret = (total, np_clip (rewards / 5) (- 1) 1 * sw5,
                   sum_list (map (\<lambda>x::real. if \<not> (0.001 > x \<and> x > - 0.001) then 1 else - 10) actions) * sw4,
                   max_peak / 50 * sw6,
                   (night_charging_boost hour actions + day_charging_pen hour actions) * sw7)"
    using assms h d unfolding add_to_buffer_def Let_def total_def
    by (auto split: sum.splits)
  have st: "py_get (buffer (memory self')) (position (memory self))
              = Inr (Some (states, actions, total, next_states, dones))"
    using push_stored[OF p] m by simp
  have te: "total = 0.5 * (\<Sum>x\<leftarrow>actions. if \<bar>x\<bar> < 0.001 then - 10 else 1)
                  + 1 * max (- 1) (min 1 (rewards / 5)) + (- 0.5) * (max_peak / 50)
                  + 2 * (night_charging_boost hour actions + day_charging_pen hour actions)"
    unfolding total_def penal_eq np_clip_unit by (simp add: sw4_def sw5_def sw6_def sw7_def)
  have re: "ret = (total, 1 * max (- 1) (min 1 (rewards / 5)),
                   0.5 * (\<Sum>x\<leftarrow>actions. if \<bar>x\<bar> < 0.001 then - 10 else 1),
                   (- 0.5) * (max_peak / 50),
                   2 * (night_charging_boost hour actions + day_charging_pen hour actions))"
    unfolding r penal_eq np_clip_unit by (simp add: sw4_def sw5_def sw6_def sw7_def)
  have cl: "- 1 \<le> max (- 1) (min 1 (rewards / 5)) \<and> max (- 1) (min 1 (rewards / 5)) \<le> 1"
    by simp
  show ?thesis
    apply (rule exI[of _ hour], rule exI[of _ max_peak], rule exI[of _ dl'])
    unfolding Let_def
    using h d st rt cl re te by simp
qed

theorem shaped_reward_witness:
  "\<exists>self'. add_to_buffer learner_example [7, 10] [0, 0, 2] [0.5, 0] (- 10) [0, 0, 3] False
            = Inr (self', (- 3.6, - 1, - 4.5, - 0.1, 2))"
proof -
  obtain self' ret where r:
    "add_to_buffer learner_example [7, 10] [0, 0, 2] [0.5, 0] (- 10) [0, 0, 3] False = Inr (self', ret)"
    by (simp add: learner_eval replicate_24)
  show ?thesis
    using shaped_reward[OF r] r
    by (simp add: learner_eval replicate_24)
qed

subsection \<open>The daily peak\<close>

lemma py_max_Max: "xs \<noteq> [] \<Longrightarrow> py_max xs = Inr (Max (set xs))"
proof (cases xs)
  case Nil
  assume "xs \<noteq> []"
  with Nil show ?thesis by simp
next
  case (Cons a list)
  have "fold max list a = Max (set (a # list))" by (rule Max.set_eq_fold[symmetric])
  then show ?thesis using Cons by simp
qed

lemma py_max_Inr: "py_max xs = Inr v \<Longrightarrow> xs \<noteq> [] \<and> v = Max (set xs)"
  using py_max_Max[of xs] by (cases xs) auto

lemma py_get_last: "py_get xs (- 1) = Inr v \<Longrightarrow> xs \<noteq> [] \<and> v = last xs"
proof -
  assume a: "py_get xs (- 1) = Inr v"
  have ne: "xs \<noteq> []" using a by (auto simp: py_get_def py_index_def Let_def)
  have n: "nat (int (length xs) + - 1) = length xs - 1" by simp
  have "v = xs ! (length xs - 1)"
    using a ne n by (auto simp: py_get_def py_index_def Let_def split: if_splits)
  then show ?thesis using ne by (simp add: last_conv_nth)
qed

lemma py_get_nonneg: "py_get xs (int i) = Inr v \<Longrightarrow> i < length xs \<and> v = xs ! i"
  by (auto simp: py_get_def py_index_def Let_def split: if_splits)

lemma py_set_Inr: "py_set xs i v = Inr ys \<Longrightarrow> \<exists>j. py_index xs i = Inr j \<and> j < length xs \<and> ys = xs[j := v]"
  by (auto simp: py_set_def py_index_def Let_def split: if_splits)

lemma py_index_nonneg: "py_index xs (int i) = Inr j \<Longrightarrow> j = i \<and> i < length xs"
  by (auto simp: py_index_def Let_def split: if_splits)

text \<open>What one returning call does to the tracker.\<close>

lemma add_to_buffer_peak:
  assumes "add_to_buffer self net states actions rewards next_states dones = Inr (self', ret)"
  shows "\<exists>max_peak. 2 < length states \<and>
           daily_peak (day_list self) (py_int (states ! 2) - 1) net = Inr (max_peak, day_list self') \<and>
           peak_term ret = max_peak / 50 * sw6"
proof -
  obtain hour where h: "py_get states 2 = Inr hour"
    using assms by (auto simp: add_to_buffer_def Let_def split: sum.splits)
  have hs: "2 < length states \<and> hour = states ! 2"
    using py_get_nonneg[of states 2 hour] h by simp
  show ?thesis
    using assms h hs unfolding add_to_buffer_def Let_def peak_term_def
    by (auto split: sum.splits)
qed

lemma daily_peak_reset:
  assumes "daily_peak dl 0 net = Inr (max_peak, dl')"
  shows "dl \<noteq> [] \<and> net \<noteq> [] \<and> max_peak = Max (set dl) \<and> dl' = last net # replicate 23 0"
proof -
  obtain v where m: "py_max dl = Inr max_peak" and g: "py_get net (- 1) = Inr v"
    and s: "py_set (replicate 24 0) 0 v = Inr dl'"
    using assms by (auto simp: daily_peak_def split: sum.splits)
  have "dl' = (replicate 24 0)[0 := v]"
    using s by (simp add: py_set_def py_index_def Let_def)
  then have "dl' = v # replicate 23 0" by (simp add: eval_nat_numeral)
  then show ?thesis using py_max_Inr[OF m] py_get_last[OF g] by simp
qed

lemma daily_peak_write:
  assumes "daily_peak dl hr_index net = Inr (max_peak, dl')" and "hr_index \<noteq> 0"
  shows "\<exists>j. py_index dl hr_index = Inr j \<and> j < length dl \<and> net \<noteq> [] \<and>
             dl' = dl[j := last net] \<and> max_peak = Max (set dl')"
proof -
  obtain v where g: "py_get net (- 1) = Inr v"
    and s: "py_set dl hr_index v = Inr dl'" and m: "py_max dl' = Inr max_peak"
    using assms by (auto simp: daily_peak_def split: sum.splits)
  show ?thesis using py_set_Inr[OF s] py_get_last[OF g] py_max_Inr[OF m] by auto
qed

lemma set_day_slots:
  "set (day_slots vs) = set vs \<union> (if length vs < 24 then {0} else {})"
  by (auto simp: day_slots_def)

lemma day_slots_write:
  assumes "length vs < 24"
  shows "(day_slots vs)[length vs := v] = day_slots (vs @ [v])"
proof -
  have "replicate (24 - length vs) (0::real) = 0 # replicate (24 - Suc (length vs)) 0"
    using assms by (metis Suc_diff_Suc replicate_Suc)
  then show ?thesis
    by (simp add: day_slots_def list_update_length)
qed

lemma length_day_slots: "length vs \<le> 24 \<Longrightarrow> length (day_slots vs) = 24"
  by (simp add: day_slots_def)

lemma add_all_Cons:
  assumes "add_all self (c # cs) = Inr (self', rs)"
  shows "\<exists>net states actions rewards next_states dones s1 r rs'.
           c = (net, states, actions, rewards, next_states, dones) \<and>
           add_to_buffer self net states actions rewards next_states dones = Inr (s1, r) \<and>
           add_all s1 cs = Inr (self', rs') \<and> rs = r # rs'"
  using assms by (cases c) (auto split: sum.splits)

lemma add_to_buffer_next_hour:
  assumes r: "add_to_buffer self net states actions rewards next_states dones = Inr (s1, ret)"
    and dl: "day_list self = day_slots vs" and lv: "1 \<le> length vs" "length vs < 24"
    and h: "py_int (states ! 2) = int (length vs) + 1"
  shows "day_list s1 = day_slots (vs @ [last net]) \<and>
         peak_term ret = Max (set (day_slots (vs @ [last net]))) / 50 * sw6"
proof -
  obtain max_peak where d:
      "daily_peak (day_list self) (py_int (states ! 2) - 1) net = Inr (max_peak, day_list s1)"
    and p: "peak_term ret = max_peak / 50 * sw6"
    using add_to_buffer_peak[OF r] by blast
  have hi: "py_int (states ! 2) - 1 = int (length vs)" using h by simp
  have nz: "int (length vs) \<noteq> 0" using lv by auto
  obtain j where j: "py_index (day_list self) (int (length vs)) = Inr j"
    and w: "day_list s1 = (day_list self)[j := last net]"
    and m: "max_peak = Max (set (day_list s1))"
    using daily_peak_write[OF d[unfolded hi] nz] by blast
  have "j = length vs" using py_index_nonneg[OF j] by simp
  then have "day_list s1 = day_slots (vs @ [last net])"
    using w dl day_slots_write[OF lv(2)] by simp
  then show ?thesis using p m by simp
qed

lemma add_to_buffer_first_hour:
  assumes r: "add_to_buffer self net states actions rewards next_states dones = Inr (s1, ret)"
    and h: "py_int (states ! 2) = 1"
  shows "day_list self \<noteq> [] \<and> day_list s1 = day_slots [last net] \<and>
         peak_term ret = Max (set (day_list self)) / 50 * sw6"
proof -
  obtain max_peak where d:
      "daily_peak (day_list self) (py_int (states ! 2) - 1) net = Inr (max_peak, day_list s1)"
    and p: "peak_term ret = max_peak / 50 * sw6"
    using add_to_buffer_peak[OF r] by blast
  have hi: "py_int (states ! 2) - 1 = 0" using h by simp
  show ?thesis
    using daily_peak_reset[OF d[unfolded hi]] p by (simp add: day_slots_def)
qed

lemma day_run:
  assumes "add_all self cs = Inr (self', rs)"
    and "day_list self = day_slots vs" and "1 \<le> length vs" and "length vs + length cs \<le> 24"
    and "\<forall>j<length cs. call_hour (cs ! j) = int (length vs + j) + 1"
  shows "length rs = length cs \<and> day_list self' = day_slots (vs @ map call_net cs) \<and>
         (\<forall>j<length cs. peak_term (rs ! j)
              = Max (set (day_slots (vs @ map call_net (take (Suc j) cs)))) / 50 * sw6)"
  using assms
proof (induction cs arbitrary: self vs rs)
  case Nil
  then show ?case by simp
next
  case (Cons c cs)
  obtain net states actions rewards next_states dones s1 r rs'
    where c: "c = (net, states, actions, rewards, next_states, dones)"
      and a: "add_to_buffer self net states actions rewards next_states dones = Inr (s1, r)"
      and rest: "add_all s1 cs = Inr (self', rs')" and rs: "rs = r # rs'"
    using add_all_Cons[OF Cons.prems(1)] by blast
  have lv: "length vs < 24" using Cons.prems(4) by simp
  have "call_hour c = int (length vs) + 1" using Cons.prems(5) by auto
  then have h: "py_int (states ! 2) = int (length vs) + 1" by (simp add: c call_hour_def)
  have cn: "call_net c = last net" by (simp add: c call_net_def)
  have step: "day_list s1 = day_slots (vs @ [call_net c])"
    "peak_term r = Max (set (day_slots (vs @ [call_net c]))) / 50 * sw6"
    using add_to_buffer_next_hour[OF a Cons.prems(2) Cons.prems(3) lv h] cn by simp_all
  have hrs: "\<forall>j<length cs. call_hour (cs ! j) = int (length (vs @ [call_net c]) + j) + 1"
  proof (intro allI impI)
    fix j assume "j < length cs"
    then have "call_hour ((c # cs) ! Suc j) = int (length vs + Suc j) + 1"
      using Cons.prems(5) by (metis Suc_less_eq length_Cons)
    then show "call_hour (cs ! j) = int (length (vs @ [call_net c]) + j) + 1" by simp
  qed
  have ih: "length rs' = length cs \<and>
        day_list self' = day_slots ((vs @ [call_net c]) @ map call_net cs) \<and>
        (\<forall>j<length cs. peak_term (rs' ! j)
            = Max (set (day_slots ((vs @ [call_net c]) @ map call_net (take (Suc j) cs)))) / 50 * sw6)"
    apply (rule Cons.IH[OF rest step(1)])
    using Cons.prems(3) apply simp
    using Cons.prems(4) apply simp
    using hrs apply blast
    done
  have pk: "peak_term (rs ! j)
              = Max (set (day_slots (vs @ map call_net (take (Suc j) (c # cs))))) / 50 * sw6"
    if "j < length (c # cs)" for j
  proof (cases j)
    case 0
    then show ?thesis using step(2) rs by simp
  next
    case (Suc k)
    then have "k < length cs" using that by simp
    then show ?thesis using ih rs Suc by simp
  qed
  show ?case using ih rs pk by simp
qed

lemmas day_eval = learner_eval replicate_24 peak_term_def call_hour_def call_net_def day_example_def

text \<open>
  C2 (as amended). Take a run of calls that returns, from any learner, the first call at
  hour 1 and the following ones at the hours 2, 3, ... (24 calls at most). The peak used
  by the first call is the maximum of the day list as it was before the call (the slots of
  the previous day), without the value of the current step; the list is then reset. The
  peak used by each later call is the maximum of the values recorded since that reset,
  the current one included, and of 0 while a slot of the day is still unwritten.
\<close>

theorem daily_peak_day:
  assumes run: "add_all self (c # cs) = Inr (self', rs)"
    and first: "call_hour c = 1"
    and hours: "\<forall>j<length cs. call_hour (cs ! j) = int j + 2"
    and day: "length cs < 24"
  shows "length rs = Suc (length cs) \<and>
         day_list self \<noteq> [] \<and>
         peak_term (rs ! 0) = Max (set (day_list self)) / 50 * sw6 \<and>
         (\<forall>j<length cs.
            peak_term (rs ! Suc j)
              = Max (set (call_net c # map call_net (take (Suc j) cs))
                     \<union> (if Suc j < 23 then {0} else {})) / 50 * sw6) \<and>
         day_list self' = (call_net c # map call_net cs) @ replicate (23 - length cs) 0"
proof -
  obtain net states actions rewards next_states dones s1 r rs'
    where c: "c = (net, states, actions, rewards, next_states, dones)"
      and a: "add_to_buffer self net states actions rewards next_states dones = Inr (s1, r)"
      and rest: "add_all s1 cs = Inr (self', rs')" and rs: "rs = r # rs'"
    using add_all_Cons[OF run] by blast
  have h: "py_int (states ! 2) = 1" using first by (simp add: c call_hour_def)
  have cn: "call_net c = last net" by (simp add: c call_net_def)
  have f: "day_list self \<noteq> []" "day_list s1 = day_slots [call_net c]"
    "peak_term r = Max (set (day_list self)) / 50 * sw6"
    using add_to_buffer_first_hour[OF a h] cn by simp_all
  have hrs: "\<forall>j<length cs. call_hour (cs ! j) = int (length [call_net c] + j) + 1"
    using hours by simp
  have dr: "length rs' = length cs \<and> day_list self' = day_slots ([call_net c] @ map call_net cs) \<and>
         (\<forall>j<length cs. peak_term (rs' ! j)
              = Max (set (day_slots ([call_net c] @ map call_net (take (Suc j) cs)))) / 50 * sw6)"
    apply (rule day_run[OF rest f(2)])
    apply simp
    using day apply simp
    using hrs apply blast
    done
  have pk: "peak_term (rs ! Suc j)
              = Max (set (call_net c # map call_net (take (Suc j) cs))
                     \<union> (if Suc j < 23 then {0} else {})) / 50 * sw6"
    if j: "j < length cs" for j
  proof -
    have "length (take (Suc j) cs) = Suc j" using j by simp
    then have "set (day_slots ([call_net c] @ map call_net (take (Suc j) cs)))
          = set (call_net c # map call_net (take (Suc j) cs)) \<union> (if Suc j < 23 then {0} else {})"
      unfolding set_day_slots by auto
    then show ?thesis using dr j rs by simp
  qed
  have dl: "day_list self' = (call_net c # map call_net cs) @ replicate (23 - length cs) 0"
    using dr by (simp add: day_slots_def)
  show ?thesis using dr rs f pk dl by simp
qed

theorem daily_peak_day_witness:
  "map_sum id (map peak_term \<circ> snd) (add_all learner_example day_example)
     = Inr [0, - 0.1, - 0.2, - 0.2]"
proof -
  obtain self' rs where r: "add_all learner_example (hd day_example # tl day_example) = Inr (self', rs)"
    by (simp add: day_eval)
  have f: "call_hour (hd day_example) = 1" by (simp add: day_eval)
  have h: "\<forall>j<length (tl day_example). call_hour (tl day_example ! j) = int j + 2"
    by (simp add: day_eval less_Suc_eq nth_Cons')
  have d: "length (tl day_example) < 24" by (simp add: day_eval)
  show ?thesis
    using daily_peak_day[OF r f h d] r
    by (auto simp add: day_eval)
qed

text \<open>
  Against the running maximum since the latest hour 1: the first call of a day uses the
  previous day's maximum (0 on a fresh learner, 10 on the second day here), not its own
  value (10, then 3).
\<close>

theorem daily_peak_counterexample:
  "map_sum id (map peak_term \<circ> snd)
     (add_all learner_example
        [([10], [0, 0, 1], [0.5], 0, [0, 0, 2], False),
         ([10, 5], [0, 0, 2], [0.5], 0, [0, 0, 3], False),
         ([10, 5, 3], [0, 0, 1], [0.5], 0, [0, 0, 2], False)])
     = Inr [0 / 50 * sw6, 10 / 50 * sw6, 10 / 50 * sw6] \<and>
   [spec_daily_peak [(1, 10)] / 50 * sw6,
    spec_daily_peak [(1, 10), (2, 5)] / 50 * sw6,
    spec_daily_peak [(1, 10), (2, 5), (1, 3)] / 50 * sw6]
     = [10 / 50 * sw6, 10 / 50 * sw6, 3 / 50 * sw6] \<and>
   (0::real) / 50 * sw6 \<noteq> 10 / 50 * sw6 \<and> (10::real) / 50 * sw6 \<noteq> 3 / 50 * sw6"
  by (simp add: day_eval spec_daily_peak_def spec_since_reset_def)


subsection \<open>Calls that return\<close>

lemma py_index_in_range:
  assumes "- int (length xs) \<le> i" and "i < int (length xs)"
  shows "\<exists>j. py_index xs i = Inr j \<and> j < length xs"
  using assms by (auto simp: py_index_def Let_def)

lemma daily_peak_returns:
  assumes "length dl = 24" and "net \<noteq> []" and "- 24 \<le> hr_index" and "hr_index < 24"
  shows "\<exists>max_peak dl'. daily_peak dl hr_index net = Inr (max_peak, dl') \<and> length dl' = 24"
proof -
  have g: "py_get net (- 1) = Inr (last net)"
    using assms(2) by (cases net rule: rev_cases) (auto simp: py_get_def py_index_def Let_def nat_add_distrib)
  show ?thesis
  proof (cases "hr_index = 0")
    case True
    have "dl \<noteq> []" using assms(1) by auto
    then have m: "py_max dl = Inr (Max (set dl))" by (rule py_max_Max)
    have s: "py_set (replicate 24 0) 0 (last net) = Inr ((replicate 24 0)[0 := last net])"
      by (simp add: py_set_def py_index_def Let_def)
    show ?thesis using True m g s by (simp add: daily_peak_def)
  next
    case False
    obtain j where j: "py_index dl hr_index = Inr j" "j < length dl"
      using py_index_in_range[of dl hr_index] assms by auto
    have s: "py_set dl hr_index (last net) = Inr (dl[j := last net])"
      using j by (simp add: py_set_def)
    have "dl[j := last net] \<noteq> []" using assms(1) by auto
    then have m: "py_max (dl[j := last net]) = Inr (Max (set (dl[j := last net])))"
      by (rule py_max_Max)
    show ?thesis using False g s m assms(1) by (simp add: daily_peak_def)
  qed
qed

lemma add_to_buffer_returns:
  assumes "2 < length states" and "net \<noteq> []" and "length (day_list self) = 24"
    and "- 24 \<le> py_int (states ! 2) - 1" and "py_int (states ! 2) - 1 < 24"
    and "0 < C" and "ring_inv C ts (memory self)"
  shows "\<exists>self' ret. add_to_buffer self net states actions rewards next_states dones
                       = Inr (self', ret) \<and>
           length (day_list self') = 24 \<and>
           (\<exists>t. ring_inv C (ts @ [t]) (memory self'))"
proof -
  have h: "py_get states 2 = Inr (states ! 2)"
    using assms(1) by (simp add: py_get_def py_index_def Let_def)
  obtain max_peak dl' where d:
    "daily_peak (day_list self) (py_int (states ! 2) - 1) net = Inr (max_peak, dl')"
    and l: "length dl' = 24"
    using daily_peak_returns[OF assms(3) assms(2) assms(4) assms(5)] by blast
  define t where "t = (states, actions,
     sum_list (map (\<lambda>x::real. if \<not> (0.001 > x \<and> x > - 0.001) then 1 else - 10) actions) * sw4
     + np_clip (rewards / 5) (- 1) 1 * sw5 + max_peak / 50 * sw6
     + (night_charging_boost (states ! 2) actions + day_charging_pen (states ! 2) actions) * sw7,
     next_states, dones)"
  obtain m' where p: "push (memory self) t = Inr m'" and r: "ring_inv C (ts @ [t]) m'"
    using ring_inv_push[OF assms(6) assms(7)] by blast
  have "\<exists>x. add_to_buffer self net states actions rewards next_states dones = Inr x \<and>
             day_list (fst x) = dl' \<and> memory (fst x) = m'"
    using p unfolding add_to_buffer_def Let_def t_def
    by (simp add: h d)
  then obtain x where x: "add_to_buffer self net states actions rewards next_states dones = Inr x"
    "day_list (fst x) = dl'" "memory (fst x) = m'" by blast
  have "add_to_buffer self net states actions rewards next_states dones = Inr (fst x, snd x)"
    using x(1) by simp
  then show ?thesis using x(2,3) l r by blast
qed

section \<open>Properties of the target updates\<close>

lemma chunks_concat:
  "length xs = len * k \<Longrightarrow> concat (chunks len k xs) = xs"
proof (induction k arbitrary: xs)
  case 0
  then show ?case by simp
next
  case (Suc k)
  have "length (drop len xs) = len * k" using Suc.prems by simp
  then have "concat (chunks len k (drop len xs)) = drop len xs" by (rule Suc.IH)
  then show ?case by simp
qed

lemma chunks_lengths:
  "length xs = len * k \<Longrightarrow> c \<in> set (chunks len k xs) \<Longrightarrow> length c = len"
proof (induction k arbitrary: xs)
  case 0
  then show ?case by simp
next
  case (Suc k)
  have d: "length (drop len xs) = len * k" using Suc.prems(1) by simp
  have t: "length (take len xs) = len" using Suc.prems(1) by simp
  show ?case using Suc.prems(2) Suc.IH[OF d] t by auto
qed

lemma expand_data_same:
  "length xs = prod_list s \<Longrightarrow> expand_data s s xs = xs"
proof (induction s arbitrary: xs)
  case Nil
  then show ?case by simp
next
  case (Cons d ds)
  have l: "length xs = prod_list ds * d" using Cons.prems by (simp add: mult.commute)
  have "map (expand_data ds ds) (chunks (prod_list ds) d xs) = chunks (prod_list ds) d xs"
    by (rule map_idI) (use chunks_lengths[OF l] Cons.IH in blast)
  then show ?case using chunks_concat[OF l] by simp
qed

lemma expandable_same: "expandable s s"
  by (simp add: expandable_def list_all2_same)

lemma expand_to_same:
  "wf_tensor src \<Longrightarrow> expand_to src (shape src) = Inr (data src)"
  by (simp add: expand_to_def expandable_same expand_data_same wf_tensor_def)

lemma tensor_copy_same:
  assumes "shape self = shape src" and "wf_tensor src"
  shows "tensor_copy self src = Inr src"
  using assms expand_to_same[of src] by (cases self; cases src) (simp add: tensor_copy_def)

lemma hard_update_same_shapes:
  assumes "map shape target = map shape source" and "list_all wf_tensor source"
  shows "hard_update target source = Inr source"
  using assms
proof (induction target arbitrary: source)
  case Nil
  then show ?case by simp
next
  case (Cons target_param target)
  then obtain param rest where s: "source = param # rest" by (cases source) auto
  have "hard_update target rest = Inr rest" using Cons s by simp
  then show ?case using Cons.prems s by (simp add: tensor_copy_same)
qed

lemma soft_update_same_shapes:
  assumes "map shape target = map shape source" and "list_all wf_tensor source"
  shows "soft_update target source t =
           Inr (map2 (\<lambda>x p. x\<lparr>data := map2 (\<lambda>a b. a * (1 - t) + b * t) (data x) (data p)\<rparr>)
                  target source)"
  using assms
proof (induction target arbitrary: source)
  case Nil
  then show ?case by simp
next
  case (Cons target_param target)
  then obtain param rest where s: "source = param # rest" by (cases source) auto
  have "soft_update target rest t =
           Inr (map2 (\<lambda>x p. x\<lparr>data := map2 (\<lambda>a b. a * (1 - t) + b * t) (data x) (data p)\<rparr>)
                  target rest)"
    using Cons s by simp
  then show ?case using Cons.prems s expand_to_same[of param] by simp
qed

lemma SAC_init_fresh:
  assumes "map shape critic_target0 = map shape critic0" and "list_all wf_tensor critic0"
  shows "SAC_init critic0 critic_target0 policy0 False af cf =
     Inr \<lparr>critic = critic0, critic_target = critic0, policy = policy0,
          memory = ReplayMemory_init replay_size,
          autoregressive_action_memory = AutoRegressiveMemory_init 1,
          action_tracker = [], reward_tracker = [], day_list = replicate 24 0\<rparr>"
  using hard_update_same_shapes[OF assms] by (simp add: SAC_init_def Let_def)

lemma soft_update_entry:
  assumes sh: "map shape target = map shape source"
    and ws: "list_all wf_tensor source" and wt: "list_all wf_tensor target"
    and i: "i < length target" and j: "j < length (data (target ! i))"
  shows "\<exists>us. soft_update target source t = Inr us \<and> map shape us = map shape target \<and>
           data (us ! i) ! j
             = data (target ! i) ! j + t * (data (source ! i) ! j - data (target ! i) ! j)"
proof -
  let ?us = "map2 (\<lambda>x p. x\<lparr>data := map2 (\<lambda>a b. a * (1 - t) + b * t) (data x) (data p)\<rparr>)
                  target source"
  have len: "length target = length source" using sh by (metis length_map)
  have shi: "shape (target ! i) = shape (source ! i)"
    using sh i len by (metis nth_map)
  have "wf_tensor (source ! i)" "wf_tensor (target ! i)"
    using ws wt i len by (simp_all add: list_all_length)
  then have dl: "length (data (source ! i)) = length (data (target ! i))"
    using shi by (simp add: wf_tensor_def)
  have u: "soft_update target source t = Inr ?us"
    using soft_update_same_shapes[OF sh ws] .
  have s: "map shape ?us = map shape target"
    using len by (auto simp: list_eq_iff_nth_eq)
  have "data (?us ! i) ! j = data (target ! i) ! j * (1 - t) + data (source ! i) ! j * t"
    using i j len dl by simp
  then have "data (?us ! i) ! j
       = data (target ! i) ! j + t * (data (source ! i) ! j - data (target ! i) ! j)"
    by (simp add: algebra_simps)
  then show ?thesis using u s by blast
qed

text \<open>
  What the two updates do to networks whose parameters have the same shapes, as the two
  critics of the learner do: the hard update makes the target equal to the source, so the
  target critic equals the critic after a construction that loads no checkpoint; a soft
  update with coefficient \<open>t\<close> replaces each entry \<open>x\<close> of each target parameter by
  \<open>x + t * (source - x)\<close>, and with the learner's \<open>tau\<close> the entry moves by 0.003 times
  (source minus old target).
\<close>

theorem target_updates:
  assumes "map shape critic_target0 = map shape critic0" and "list_all wf_tensor critic0"
    and "map shape target = map shape source"
    and "list_all wf_tensor source" and "list_all wf_tensor target"
  shows "hard_update critic_target0 critic0 = Inr critic0 \<and>
         (\<exists>s. SAC_init critic0 critic_target0 policy0 False actor_file critic_file = Inr s \<and>
              critic s = critic0 \<and> critic_target s = critic s) \<and>
         (\<forall>i<length target. \<forall>j<length (data (target ! i)).
            (\<exists>us. soft_update target source t = Inr us \<and> map shape us = map shape target \<and>
               data (us ! i) ! j
                 = data (target ! i) ! j + t * (data (source ! i) ! j - data (target ! i) ! j)) \<and>
            (\<exists>us. soft_update target source tau = Inr us \<and>
               data (us ! i) ! j - data (target ! i) ! j
                 = 0.003 * (data (source ! i) ! j - data (target ! i) ! j)))"
proof (intro conjI allI impI)
  show "hard_update critic_target0 critic0 = Inr critic0"
    using assms(1,2) by (rule hard_update_same_shapes)
  show "\<exists>s. SAC_init critic0 critic_target0 policy0 False actor_file critic_file = Inr s \<and>
              critic s = critic0 \<and> critic_target s = critic s"
    by (simp add: SAC_init_fresh[OF assms(1,2)])
next
  fix i j assume i: "i < length target" and j: "j < length (data (target ! i))"
  show "\<exists>us. soft_update target source t = Inr us \<and> map shape us = map shape target \<and>
               data (us ! i) ! j
                 = data (target ! i) ! j + t * (data (source ! i) ! j - data (target ! i) ! j)"
    using soft_update_entry[OF assms(3,4,5) i j] .
  obtain us where u: "soft_update target source tau = Inr us"
    and e: "data (us ! i) ! j
       = data (target ! i) ! j + tau * (data (source ! i) ! j - data (target ! i) ! j)"
    using soft_update_entry[OF assms(3,4,5) i j, of tau] by blast
  have "data (us ! i) ! j - data (target ! i) ! j
          = 0.003 * (data (source ! i) ! j - data (target ! i) ! j)"
    unfolding e tau_def by simp
  with u show "\<exists>us. soft_update target source tau = Inr us \<and>
               data (us ! i) ! j - data (target ! i) ! j
                 = 0.003 * (data (source ! i) ! j - data (target ! i) ! j)"
    by blast
qed

theorem target_updates_witness:
  "hard_update [\<lparr>shape = [2], data = [2, 7]\<rparr>] [\<lparr>shape = [2], data = [1, 5]\<rparr>]
     = Inr [\<lparr>shape = [2], data = [1, 5]\<rparr>] \<and>
   soft_update [\<lparr>shape = [2], data = [1, 0]\<rparr>] [\<lparr>shape = [2], data = [2, 1000]\<rparr>] tau
     = Inr [\<lparr>shape = [2], data = [1.003, 3]\<rparr>]"
proof -
  have a: "map shape [\<lparr>shape = [2], data = [2, 7]\<rparr>] = map shape [\<lparr>shape = [2], data = [1, 5]\<rparr>]"
    by simp
  have b: "list_all wf_tensor [\<lparr>shape = [2], data = [1, 5::real]\<rparr>]" by (simp add: wf_tensor_def)
  have c: "map shape [\<lparr>shape = [2], data = [1, 0]\<rparr>] = map shape [\<lparr>shape = [2], data = [2, 1000]\<rparr>]"
    by simp
  have d: "list_all wf_tensor [\<lparr>shape = [2], data = [2, 1000::real]\<rparr>]" by (simp add: wf_tensor_def)
  have e: "list_all wf_tensor [\<lparr>shape = [2], data = [1, 0::real]\<rparr>]" by (simp add: wf_tensor_def)
  show ?thesis
    using target_updates[OF a b c d e, of "[]" None None tau]
      soft_update_same_shapes[OF c d, of tau]
    by (simp add: tau_def)
qed

text \<open>
  C9. Immediately after the construction of the learner the target critic is to equal the
  critic. The constructor makes them equal by the hard update, but with
  \<open>continue_training\<close> (the default) it then loads the checkpoint into the critic alone:
  for a fresh critic \<open>[1, 5]\<close> and a checkpoint \<open>[3, 4]\<close> the constructed learner has the
  critic \<open>[3, 4]\<close> and the target critic \<open>[1, 5]\<close>.
\<close>

theorem construction_target_diverges:
  "map_sum id critic
     (SAC_init [\<lparr>shape = [2], data = [1, 5]\<rparr>] [\<lparr>shape = [2], data = [2, 7]\<rparr>]
        [\<lparr>shape = [1], data = [0]\<rparr>] True
        (Some [\<lparr>shape = [1], data = [0]\<rparr>]) (Some [\<lparr>shape = [2], data = [3, 4]\<rparr>]))
     = Inr [\<lparr>shape = [2], data = [3, 4]\<rparr>] \<and>
   map_sum id critic_target
     (SAC_init [\<lparr>shape = [2], data = [1, 5]\<rparr>] [\<lparr>shape = [2], data = [2, 7]\<rparr>]
        [\<lparr>shape = [1], data = [0]\<rparr>] True
        (Some [\<lparr>shape = [1], data = [0]\<rparr>]) (Some [\<lparr>shape = [2], data = [3, 4]\<rparr>]))
     = Inr [\<lparr>shape = [2], data = [1, 5]\<rparr>]"
proof -
  have a: "map shape [\<lparr>shape = [2], data = [2, 7]\<rparr>] = map shape [\<lparr>shape = [2], data = [1, 5]\<rparr>]"
    by simp
  have b: "list_all wf_tensor [\<lparr>shape = [2], data = [1, 5::real]\<rparr>]" by (simp add: wf_tensor_def)
  show ?thesis
    using hard_update_same_shapes[OF a b]
    by (simp add: SAC_init_def Let_def load_model_def load_state_dict_def)
qed

section \<open>Properties of the policies\<close>

lemma affine_within:
  fixes y l h :: real
  assumes "- 1 \<le> y" "y \<le> 1" "l \<le> h"
  shows "l \<le> y * ((h - l) / 2) + (h + l) / 2 \<and> y * ((h - l) / 2) + (h + l) / 2 \<le> h"
proof -
  have w: "0 \<le> (h - l) / 2" using assms(3) by simp
  have up: "y * ((h - l) / 2) \<le> 1 * ((h - l) / 2)"
    using assms(2) w by (rule mult_right_mono)
  have lo: "(- 1) * ((h - l) / 2) \<le> y * ((h - l) / 2)"
    using assms(1) w by (rule mult_right_mono)
  show ?thesis using up lo by (simp add: field_simps)
qed

lemma tanh_within: "- 1 \<le> tanh (x::real) \<and> tanh x \<le> 1"
  using tanh_real_gt_neg1[of x] tanh_real_lt_1[of x] by simp

lemma rescale_nth:
  assumes "length (low sp) = n" "length (high sp) = n" "length ys = n" "i < n"
  shows "map2 (+) (map2 (*) ys (fst (rescaling n (Some sp)))) (snd (rescaling n (Some sp))) ! i
         = ys ! i * ((high sp ! i - low sp ! i) / 2) + (high sp ! i + low sp ! i) / 2"
  using assms by (simp add: rescaling_def)

lemma rescale_length:
  assumes "length (low sp) = n" "length (high sp) = n" "length ys = n"
  shows "length (map2 (+) (map2 (*) ys (fst (rescaling n (Some sp)))) (snd (rescaling n (Some sp)))) = n"
  using assms by (simp add: rescaling_def)

lemma rescale_tanh_within:
  assumes "length (low sp) = n" "length (high sp) = n" "length xs = n" "i < n"
    and "low sp ! i \<le> high sp ! i"
  shows "low sp ! i \<le> map2 (+) (map2 (*) (map tanh xs) (fst (rescaling n (Some sp)))) (snd (rescaling n (Some sp))) ! i
       \<and> map2 (+) (map2 (*) (map tanh xs) (fst (rescaling n (Some sp)))) (snd (rescaling n (Some sp))) ! i \<le> high sp ! i"
proof -
  have "map2 (+) (map2 (*) (map tanh xs) (fst (rescaling n (Some sp)))) (snd (rescaling n (Some sp))) ! i
        = tanh (xs ! i) * ((high sp ! i - low sp ! i) / 2) + (high sp ! i + low sp ! i) / 2"
    using assms(1-4) by (simp add: rescale_nth)
  then show ?thesis
    using affine_within[of "tanh (xs ! i)" "low sp ! i" "high sp ! i"] tanh_within[of "xs ! i"] assms(5)
    by simp
qed

lemma GaussianPolicy_sample_action:
  "fst (GaussianPolicy_sample (GaussianPolicy_init net n (Some sp)) state noise) =
     (let mean = fst (net state);
          std = map (\<lambda>x. exp (np_clip x LOG_SIG_MIN LOG_SIG_MAX)) (snd (net state));
          x_t = map2 (\<lambda>(m, sd) e. m + sd * e) (zip mean std) noise
      in map2 (+) (map2 (*) (map tanh x_t) (fst (rescaling n (Some sp)))) (snd (rescaling n (Some sp))))"
  by (auto simp: GaussianPolicy_sample_def GaussianPolicy_init_def GaussianPolicy_forward_def Let_def
      comp_def split: prod.splits)

lemma GaussianPolicy_sample_mean:
  "snd (snd (GaussianPolicy_sample (GaussianPolicy_init net n (Some sp)) state noise)) =
     map2 (+) (map2 (*) (map tanh (fst (net state))) (fst (rescaling n (Some sp)))) (snd (rescaling n (Some sp)))"
  by (auto simp: GaussianPolicy_sample_def GaussianPolicy_init_def GaussianPolicy_forward_def Let_def
      comp_def split: prod.splits)

lemma DeterministicPolicy_sample_eq:
  "DeterministicPolicy_sample (DeterministicPolicy_init net n (Some sp)) state draw =
     (let mean = map2 (+) (map2 (*) (map tanh (net state)) (fst (rescaling n (Some sp)))) (snd (rescaling n (Some sp)))
      in (map2 (+) mean (map (\<lambda>x. np_clip x (- 0.25) 0.25) draw), 0, mean))"
  by (simp add: DeterministicPolicy_sample_def DeterministicPolicy_init_def DeterministicPolicy_forward_def Let_def
      split: prod.splits)

text \<open>
  C6 (as amended). For a box with \<open>low \<le> high\<close> in each of its \<open>n\<close> components and
  heads with \<open>n\<close> outputs, whatever the state and the draws: each component of the action
  and of the mean that the Gaussian policy returns lies in \<open>[low, high]\<close>; the mean of
  the deterministic policy lies in \<open>[low, high]\<close> too, and its action is within 0.25 of
  its mean, so in \<open>[low - 0.25, high + 0.25]\<close>.
\<close>

theorem policy_action_bounds:
  assumes "length (low sp) = n" and "length (high sp) = n"
    and "\<forall>i<n. low sp ! i \<le> high sp ! i"
    and "length (fst (gnet state)) = n" and "length (snd (gnet state)) = n" and "length noise = n"
    and "length (dnet state) = n" and "length draw = n"
  shows "(case GaussianPolicy_sample (GaussianPolicy_init gnet n (Some sp)) state noise of
            (action, log_prob, mean) \<Rightarrow>
              length action = n \<and> length mean = n \<and>
              (\<forall>i<n. low sp ! i \<le> action ! i \<and> action ! i \<le> high sp ! i \<and>
                      low sp ! i \<le> mean ! i \<and> mean ! i \<le> high sp ! i)) \<and>
         (case DeterministicPolicy_sample (DeterministicPolicy_init dnet n (Some sp)) state draw of
            (action, log_prob, mean) \<Rightarrow>
              length action = n \<and> length mean = n \<and> log_prob = 0 \<and>
              (\<forall>i<n. low sp ! i \<le> mean ! i \<and> mean ! i \<le> high sp ! i \<and>
                      mean ! i - 0.25 \<le> action ! i \<and> action ! i \<le> mean ! i + 0.25 \<and>
                      low sp ! i - 0.25 \<le> action ! i \<and> action ! i \<le> high sp ! i + 0.25))"
proof -
  let ?sc = "fst (rescaling n (Some sp))" and ?bi = "snd (rescaling n (Some sp))"
  define x_t where "x_t = map2 (\<lambda>(m, sd) e. m + sd * e)
      (zip (fst (gnet state)) (map (\<lambda>x. exp (np_clip x LOG_SIG_MIN LOG_SIG_MAX)) (snd (gnet state)))) noise"
  have lx: "length x_t = n" using assms(4-6) by (simp add: x_t_def)
  define ga where "ga = map2 (+) (map2 (*) (map tanh x_t) ?sc) ?bi"
  define gm where "gm = map2 (+) (map2 (*) (map tanh (fst (gnet state))) ?sc) ?bi"
  define dm where "dm = map2 (+) (map2 (*) (map tanh (dnet state)) ?sc) ?bi"
  define nz where "nz = map (\<lambda>x. np_clip x (- 0.25) 0.25) draw"
  have g: "GaussianPolicy_sample (GaussianPolicy_init gnet n (Some sp)) state noise
           = (ga, fst (snd (GaussianPolicy_sample (GaussianPolicy_init gnet n (Some sp)) state noise)), gm)"
    using GaussianPolicy_sample_action[of gnet n sp state noise]
      GaussianPolicy_sample_mean[of gnet n sp state noise]
    by (simp add: ga_def gm_def x_t_def Let_def prod_eq_iff)
  have d: "DeterministicPolicy_sample (DeterministicPolicy_init dnet n (Some sp)) state draw
           = (map2 (+) dm nz, 0, dm)"
    by (simp add: DeterministicPolicy_sample_eq dm_def nz_def Let_def)
  have lga: "length ga = n" unfolding ga_def
    using rescale_length[OF assms(1,2), of "map tanh x_t"] lx by simp
  have lgm: "length gm = n" unfolding gm_def
    using rescale_length[OF assms(1,2), of "map tanh (fst (gnet state))"] assms(4) by simp
  have ldm: "length dm = n" unfolding dm_def
    using rescale_length[OF assms(1,2), of "map tanh (dnet state)"] assms(7) by simp
  have lnz: "length nz = n" using assms(8) by (simp add: nz_def)
  have bga: "low sp ! i \<le> ga ! i \<and> ga ! i \<le> high sp ! i" if "i < n" for i
    unfolding ga_def using rescale_tanh_within[OF assms(1,2) lx that] assms(3) that by simp
  have bgm: "low sp ! i \<le> gm ! i \<and> gm ! i \<le> high sp ! i" if "i < n" for i
    unfolding gm_def using rescale_tanh_within[OF assms(1,2) assms(4) that] assms(3) that by simp
  have bdm: "low sp ! i \<le> dm ! i \<and> dm ! i \<le> high sp ! i" if "i < n" for i
    unfolding dm_def using rescale_tanh_within[OF assms(1,2) assms(7) that] assms(3) that by simp
  have bnz: "- 0.25 \<le> nz ! i \<and> nz ! i \<le> 0.25" if "i < n" for i
    using that assms(8) by (simp add: nz_def np_clip_def)
  have da: "map2 (+) dm nz ! i = dm ! i + nz ! i" if "i < n" for i
    using that ldm lnz by simp
  have G: "length ga = n \<and> length gm = n \<and>
              (\<forall>i<n. low sp ! i \<le> ga ! i \<and> ga ! i \<le> high sp ! i \<and>
                      low sp ! i \<le> gm ! i \<and> gm ! i \<le> high sp ! i)"
    using lga lgm bga bgm by blast
  have D: "length (map2 (+) dm nz) = n \<and> length dm = n \<and> (0::real) = 0 \<and>
              (\<forall>i<n. low sp ! i \<le> dm ! i \<and> dm ! i \<le> high sp ! i \<and>
                      dm ! i - 0.25 \<le> map2 (+) dm nz ! i \<and> map2 (+) dm nz ! i \<le> dm ! i + 0.25 \<and>
                      low sp ! i - 0.25 \<le> map2 (+) dm nz ! i \<and> map2 (+) dm nz ! i \<le> high sp ! i + 0.25)"
  proof (intro conjI allI impI)
    show "length (map2 (+) dm nz) = n" using ldm lnz by simp
    show "length dm = n" by (rule ldm)
    show "(0::real) = 0" by (rule refl)
  next
    fix i assume i: "i < n"
    show "low sp ! i \<le> dm ! i" "dm ! i \<le> high sp ! i" using bdm[OF i] by auto
    show "dm ! i - 0.25 \<le> map2 (+) dm nz ! i" using da[OF i] bnz[OF i] by simp
    show "map2 (+) dm nz ! i \<le> dm ! i + 0.25" using da[OF i] bnz[OF i] by simp
    show "low sp ! i - 0.25 \<le> map2 (+) dm nz ! i" using da[OF i] bnz[OF i] bdm[OF i] by simp
    show "map2 (+) dm nz ! i \<le> high sp ! i + 0.25" using da[OF i] bnz[OF i] bdm[OF i] by simp
  qed
  show ?thesis
    apply (subst g)
    apply (subst d)
    apply (simp only: prod.case)
    using G D by blast
qed

theorem policy_action_bounds_witness:
  "fst (GaussianPolicy_sample (GaussianPolicy_init (\<lambda>s. ([0], [0])) 1 (Some \<lparr>low = [0], high = [0.2]\<rparr>)) [7] [0]) = [0.1]
   \<and> fst (DeterministicPolicy_sample (DeterministicPolicy_init (\<lambda>s. [0]) 1 (Some \<lparr>low = [0], high = [0.2]\<rparr>)) [7] [0.05]) = [0.15]"
  using policy_action_bounds[of "\<lparr>low = [0], high = [0.2]\<rparr>" 1 "\<lambda>s. ([0], [0])" "[7]" "[0]" "\<lambda>s. [0]" "[0.05]"]
  by (simp add: GaussianPolicy_sample_def GaussianPolicy_init_def GaussianPolicy_forward_def
      DeterministicPolicy_sample_def DeterministicPolicy_init_def DeterministicPolicy_forward_def
      rescaling_def np_clip_def Let_def LOG_SIG_MIN_def LOG_SIG_MAX_def)

text \<open>
  The noise of the deterministic policy is added after the rescaling: with the box
  \<open>[0, 0.2]\<close>, a mean at the midpoint and a draw of 0.3 (clipped to 0.25) the action is
  0.35.
\<close>

theorem deterministic_action_counterexample:
  "fst (DeterministicPolicy_sample
          (DeterministicPolicy_init (\<lambda>s. [0]) 1 (Some \<lparr>low = [0], high = [0.2]\<rparr>)) [7] [0.3]) = [0.35]
   \<and> \<not> ((0.35::real) \<le> high \<lparr>low = [0], high = [0.2]\<rparr> ! 0)"
  by (simp add: DeterministicPolicy_sample_def DeterministicPolicy_init_def DeterministicPolicy_forward_def
      rescaling_def np_clip_def Let_def)


section \<open>Properties of the charger\<close>

lemma update_connected_ev_soc_charge:
  assumes "connected_ev self = Some car" and "a \<noteq> 0"
    and "update_connected_ev_soc charge self a = Inr self'"
  shows "\<exists>energy car'. clamped_energy self car a = Inr energy \<and> connected_ev self' = Some car' \<and>
           battery car' = charge (battery car) (energy * efficiency self)"
proof -
  have ce: "clamped_energy (self\<lparr>past_charging_action_values := pav\<rparr>) car a = clamped_energy self car a" for pav
    by (simp add: clamped_energy_def requested_energy_def)
  show ?thesis
    using assms
    by (auto simp: update_connected_ev_soc_def Let_def ce split: sum.splits)
qed

lemmas example_defs = car_with_soc_def charger_with_def recording_charge_def
  update_connected_ev_soc_def clamped_energy_def requested_energy_def py_get_def py_set_def
  py_index_def Let_def

text \<open>
  C5. In a call of \<open>update_connected_ev_soc\<close> that returns, with a connected vehicle and
  an action other than zero, the signed energy is the action times \<open>max_charging_power\<close>
  when the action is positive and times \<open>max_discharging_power\<close> otherwise; charging
  (energy at least zero) it is clamped to \<open>min energy (capacity - soc)\<close>, discharging to
  \<open>max energy (- (soc - 0.10 * capacity))\<close>; the clamped energy times the efficiency is
  what \<open>charge\<close> receives. So a charge never asks for more than \<open>capacity - soc\<close>: with
  50 kWh, 48 kWh stored and a request of 10 kWh, no more than 2 kWh.
\<close>

theorem charger_clamp:
  assumes "connected_ev self = Some car" and "a \<noteq> 0"
    and "update_connected_ev_soc charge self a = Inr self'"
  shows "\<exists>soc car'.
           py_get (b_soc (battery car)) (time_step self) = Inr soc \<and>
           (let energy = (if a > 0 then a * max_charging_power self
                          else a * max_discharging_power self);
                clamped = (if energy \<ge> 0 then min energy (b_capacity (battery car) - soc)
                           else max energy (- (soc - 0.10 * b_capacity (battery car))))
            in clamped_energy self car a = Inr clamped \<and>
               (if energy \<ge> 0 then clamped \<le> b_capacity (battery car) - soc
                else clamped \<ge> - (soc - 0.10 * b_capacity (battery car))) \<and>
               connected_ev self' = Some car' \<and>
               battery car' = charge (battery car) (clamped * efficiency self))"
proof -
  obtain energy car' where e: "clamped_energy self car a = Inr energy"
    and c: "connected_ev self' = Some car'"
    and b: "battery car' = charge (battery car) (energy * efficiency self)"
    using update_connected_ev_soc_charge[OF assms] by blast
  from e obtain soc where s: "py_get (b_soc (battery car)) (time_step self) = Inr soc"
    by (auto simp: clamped_energy_def Let_def split: sum.splits)
  show ?thesis
    using e c b s
    by (auto simp: clamped_energy_def requested_energy_def Let_def split: if_splits)
qed


theorem charger_clamp_witness:
  "clamped_energy (charger_with (car_with_soc 48)) (car_with_soc 48) 0.2 = Inr 2 \<and>
   (\<exists>self' car'. update_connected_ev_soc recording_charge (charger_with (car_with_soc 48)) 0.2 = Inr self' \<and>
       connected_ev self' = Some car' \<and>
       battery car' = recording_charge (battery (car_with_soc 48)) (2 * 0.9))"
proof -
  have c: "connected_ev (charger_with (car_with_soc 48)) = Some (car_with_soc 48)"
    by (simp add: charger_with_def)
  have a: "(0.2::real) \<noteq> 0" by simp
  obtain self' where r:
    "update_connected_ev_soc recording_charge (charger_with (car_with_soc 48)) 0.2 = Inr self'"
    by (simp add: example_defs)
  show ?thesis
    using charger_clamp[OF c a r] r
    by (simp add: example_defs)
qed

text \<open>
  C10 (as amended). With a connected vehicle, a negative action, a positive \<open>max_discharging_power\<close>
  (so that a discharge is requested) and a state of charge below a tenth of the
  capacity, the clamped energy \<open>max (action * max_discharging_power) (- (soc - 0.10 *
  capacity))\<close> is positive, and \<open>charge\<close> receives it times the efficiency (positive, by
  the assertion of the setter): the discharge has become a charge.
\<close>

theorem discharge_below_floor:
  assumes "connected_ev self = Some car" and "a < 0"
    and "0 < max_discharging_power self" and "0 < efficiency self"
    and "py_get (b_soc (battery car)) (time_step self) = Inr soc"
    and "soc < 0.10 * b_capacity (battery car)"
    and "update_connected_ev_soc charge self a = Inr self'"
  shows "\<exists>car'. (let clamped = max (a * max_discharging_power self)
                                 (- (soc - 0.10 * b_capacity (battery car)))
          in clamped_energy self car a = Inr clamped \<and> 0 < clamped \<and>
             0 < clamped * efficiency self \<and>
             connected_ev self' = Some car' \<and>
             battery car' = charge (battery car) (clamped * efficiency self))"
proof -
  have an: "a \<noteq> 0" using assms(2) by simp
  obtain energy car' where e: "clamped_energy self car a = Inr energy"
    and c: "connected_ev self' = Some car'"
    and b: "battery car' = charge (battery car) (energy * efficiency self)"
    using update_connected_ev_soc_charge[OF assms(1) an assms(7)] by blast
  have neg: "a * max_discharging_power self < 0"
    using assms(2,3) by (simp add: mult_neg_pos)
  have eq: "energy = max (a * max_discharging_power self) (- (soc - 0.10 * b_capacity (battery car)))"
    using e assms(2,5) neg by (simp add: clamped_energy_def requested_energy_def Let_def)
  have pos: "0 < energy" using eq assms(6) by simp
  show ?thesis using e c b eq pos assms(4) by (simp add: Let_def)
qed

theorem discharge_below_floor_witness:
  "clamped_energy (charger_with (car_with_soc 3)) (car_with_soc 3) (- 0.2) = Inr 2 \<and>
   (\<exists>self' car'. update_connected_ev_soc recording_charge (charger_with (car_with_soc 3)) (- 0.2) = Inr self' \<and>
       connected_ev self' = Some car' \<and>
       battery car' = recording_charge (battery (car_with_soc 3)) (2 * 0.9))"
proof -
  have c: "connected_ev (charger_with (car_with_soc 3)) = Some (car_with_soc 3)"
    by (simp add: charger_with_def)
  have a: "(- 0.2::real) < 0" by simp
  have m: "0 < max_discharging_power (charger_with (car_with_soc 3))" by (simp add: charger_with_def)
  have e: "0 < efficiency (charger_with (car_with_soc 3))" by (simp add: charger_with_def)
  have s: "py_get (b_soc (battery (car_with_soc 3))) (time_step (charger_with (car_with_soc 3))) = Inr 3"
    by (simp add: example_defs)
  have f: "(3::real) < 0.10 * b_capacity (battery (car_with_soc 3))" by (simp add: car_with_soc_def)
  obtain self' where r:
    "update_connected_ev_soc recording_charge (charger_with (car_with_soc 3)) (- 0.2) = Inr self'"
    by (simp add: example_defs)
  show ?thesis
    using discharge_below_floor[OF c a m e s f r] r
    by (simp add: example_defs)
qed

text \<open>
  The branch is chosen by the sign of the energy, not of the action: a charger with
  \<open>max_discharging_power = 0\<close> turns the negative action into the energy 0, the charging
  clamp applies and \<open>charge\<close> receives 0, where the discharging clamp would give 2.
\<close>

theorem discharge_zero_power_counterexample:
  "clamped_energy ((charger_with (car_with_soc 3))\<lparr>max_discharging_power := 0\<rparr>)
     (car_with_soc 3) (- 0.2) = Inr 0 \<and>
   max (- 0.2 * max_discharging_power ((charger_with (car_with_soc 3))\<lparr>max_discharging_power := 0\<rparr>))
       (- (3 - 0.10 * b_capacity (battery (car_with_soc 3)))) = 2 \<and>
   map_sum id (map_option battery \<circ> connected_ev)
     (update_connected_ev_soc recording_charge
        ((charger_with (car_with_soc 3))\<lparr>max_discharging_power := 0\<rparr>) (- 0.2))
     = Inr (Some (recording_charge (battery (car_with_soc 3)) 0))"
  by (simp add: example_defs)


section \<open>Properties of the adjustment on connection\<close>

lemma variation_bounds: "- 0.2 \<le> variation_percentage draw \<and> variation_percentage draw \<le> 0.2"
  by (simp add: variation_percentage_def np_clip_def)

lemma soc_final_kwh_eq:
  "soc_final_kwh b p draw = b_capacity b * (p / 100) * (1 + variation_percentage draw)"
  by (simp add: soc_final_kwh_def Let_def algebra_simps)

lemma adjust_eq:
  "adjust_ev_soc_on_system_connection f self p draw =
     self\<lparr>battery := f (battery self) (soc_final_kwh (battery self) p draw - b_initial_soc (battery self)),
          aux_battery := f (aux_battery self)
             (soc_final_kwh (aux_battery self) p draw - b_initial_soc (aux_battery self))\<rparr>"
  by (simp add: adjust_ev_soc_on_system_connection_def Let_def)

text \<open>
  C8. Whatever the draw, the fraction \<open>v\<close> applied lies in \<open>[-0.2, 0.2]\<close>; both batteries
  get the same \<open>v\<close>: the final state of charge of each is its target (capacity times the
  predicted percentage) plus \<open>v\<close> times that target, and these finals are what the two
  adjustments are computed from. Hence the finals are in the ratio of the capacities.
\<close>

theorem adjust_same_fraction:
  "(let v = variation_percentage draw;
        final = soc_final_kwh (battery self) p draw;
        aux_final = soc_final_kwh (aux_battery self) p draw
    in - 0.2 \<le> v \<and> v \<le> 0.2 \<and>
       final = b_capacity (battery self) * (p / 100) + v * (b_capacity (battery self) * (p / 100)) \<and>
       aux_final = b_capacity (aux_battery self) * (p / 100)
                   + v * (b_capacity (aux_battery self) * (p / 100)) \<and>
       adjust_ev_soc_on_system_connection f self p draw =
         self\<lparr>battery := f (battery self) (final - b_initial_soc (battery self)),
              aux_battery := f (aux_battery self) (aux_final - b_initial_soc (aux_battery self))\<rparr> \<and>
       final * b_capacity (aux_battery self) = aux_final * b_capacity (battery self) \<and>
       (b_capacity (aux_battery self) \<noteq> 0 \<and> p \<noteq> 0 \<longrightarrow>
          final / aux_final = b_capacity (battery self) / b_capacity (aux_battery self)))"
proof -
  have v: "- 0.2 \<le> variation_percentage draw" "variation_percentage draw \<le> 0.2"
    using variation_bounds by auto
  have nz: "1 + variation_percentage draw \<noteq> 0" using v by linarith
  show ?thesis
    unfolding Let_def
    apply (intro conjI)
          apply (rule v(1))
         apply (rule v(2))
        apply (simp add: soc_final_kwh_def Let_def algebra_simps)
       apply (simp add: soc_final_kwh_def Let_def algebra_simps)
      apply (rule adjust_eq)
     apply (simp add: soc_final_kwh_eq)
    using nz apply (simp add: soc_final_kwh_eq)
    done
qed

theorem adjust_same_fraction_witness:
  "variation_percentage 0.5 = 0.2 \<and>
   soc_final_kwh (battery ev_example) 40 0.5 = 24 \<and>
   soc_final_kwh (aux_battery ev_example) 40 0.5 = 19.2 \<and>
   (24::real) / 19.2 = 50 / 40"
  using adjust_same_fraction[of "0.5" ev_example 40 recording_charge]
  by (simp add: ev_example_def soc_final_kwh_def variation_percentage_def np_clip_def Let_def)

text \<open>
  What the method passes to the ad-hoc charge adjustment of each battery: the final
  (perturbed target) state of charge in kWh minus the attribute \<open>initial_soc\<close> of that
  battery.
\<close>

lemma adjust_energy:
  "adjust_ev_soc_on_system_connection f self p draw =
     self\<lparr>battery := f (battery self)
             (b_capacity (battery self) * (p / 100) * (1 + variation_percentage draw)
              - b_initial_soc (battery self)),
          aux_battery := f (aux_battery self)
             (b_capacity (aux_battery self) * (p / 100) * (1 + variation_percentage draw)
              - b_initial_soc (aux_battery self))\<rparr>"
  by (simp add: adjust_eq soc_final_kwh_eq)

text \<open>
  C7. The energy passed to the adjustment of a battery is to be the final state of charge
  minus the state of charge of the battery immediately before the adjustment, as the
  documentation of the method says. The method subtracts the attribute \<open>initial_soc\<close>
  instead of the entry of the series \<open>soc\<close> at the time step, which its sibling methods read
  for the current state of charge: for a vehicle whose battery started with 10 kWh and
  holds 30 kWh, and a target of 20 kWh, the energy passed is 10 where 20 - 30 = -10 is due.
\<close>

theorem adjust_prior_soc_diverges:
  "b_electricity_consumption
     (battery (adjust_ev_soc_on_system_connection recording_charge ev_example 40 0)) = [10] \<and>
   spec_prior_soc ev_example (battery ev_example) = Inr 30 \<and>
   soc_final_kwh (battery ev_example) 40 0 - 30 = - 10"
  by (simp add: adjust_ev_soc_on_system_connection_def Let_def recording_charge_def ev_example_def
        soc_final_kwh_def variation_percentage_def np_clip_def spec_prior_soc_def py_get_def py_index_def)

end
